theory Spec2Isabelle
  imports Complex_Main "HOL-Library.Multiset" "HOL-Library.Code_Target_Numeral"
begin

section \<open>Python strings\<close>

text \<open>
  A Python \<open>str\<close> is modelled as a \<open>string\<close>: a list of 8-bit characters, read as the
  code points 0..255 (Latin-1). Every character table below is the restriction of the
  Unicode table Python uses to that range. The euro sign (U+20AC), which two patterns of
  the source mention, lies outside the range and has no counterpart in the model.
\<close>

definition code :: "char \<Rightarrow> nat" where
  "code c = of_char c"

definition between :: "nat \<Rightarrow> char \<Rightarrow> nat \<Rightarrow> bool" where
  "between lo c hi = (lo \<le> code c \<and> code c \<le> hi)"

text \<open>\<open>str.isspace\<close>, the set that \<open>str.strip()\<close>, \<open>str.split()\<close> and the pattern
  \<open>\s\<close> use.\<close>

definition isspace :: "char \<Rightarrow> bool" where
  "isspace c = (between 0x09 c 0x0D \<or> between 0x1C c 0x20 \<or> code c = 0x85 \<or> code c = 0xA0)"

text \<open>The decimal digits (the pattern \<open>\d\<close>, and the digits of \<open>int()\<close> and \<open>float()\<close>),
  \<open>str.isdigit\<close>, which also accepts the superscripts one, two and three, and
  \<open>str.isalnum\<close>.\<close>

definition decimal :: "char \<Rightarrow> bool" where
  "decimal c = between 0x30 c 0x39"

definition isdigit :: "char \<Rightarrow> bool" where
  "isdigit c = (decimal c \<or> code c = 0xB2 \<or> code c = 0xB3 \<or> code c = 0xB9)"

definition isupper_char :: "char \<Rightarrow> bool" where
  "isupper_char c = (between 0x41 c 0x5A \<or> between 0xC0 c 0xD6 \<or> between 0xD8 c 0xDE)"

definition islower_char :: "char \<Rightarrow> bool" where
  "islower_char c = (between 0x61 c 0x7A \<or> code c = 0xAA \<or> code c = 0xB5 \<or> code c = 0xBA
     \<or> between 0xDF c 0xF6 \<or> between 0xF8 c 0xFF)"

definition isalnum :: "char \<Rightarrow> bool" where
  "isalnum c = (isdigit c \<or> isupper_char c \<or> islower_char c \<or> between 0xBC c 0xBE)"

text \<open>The pattern \<open>\w\<close>.\<close>

definition word_char :: "char \<Rightarrow> bool" where
  "word_char c = (isalnum c \<or> c = CHR ''_'')"

text \<open>\<open>str.lower\<close>. \<open>str.upper\<close> leaves the range for three characters (the micro sign,
  the sharp s and y with diaeresis); \<open>upper_char\<close> keeps them unchanged, and the source
  applies \<open>upper\<close> and \<open>capitalize\<close> only to words of its own tables, which are ASCII.\<close>

definition lower_char :: "char \<Rightarrow> char" where
  "lower_char c = (if isupper_char c then char_of (code c + 32) else c)"

definition upper_char :: "char \<Rightarrow> char" where
  "upper_char c =
     (if between 0x61 c 0x7A \<or> between 0xE0 c 0xF6 \<or> between 0xF8 c 0xFE
      then char_of (code c - 32) else c)"

definition lower :: "string \<Rightarrow> string" where
  "lower s = map lower_char s"

definition upper :: "string \<Rightarrow> string" where
  "upper s = map upper_char s"

definition capitalize :: "string \<Rightarrow> string" where
  "capitalize s = (case s of [] \<Rightarrow> [] | c # cs \<Rightarrow> upper_char c # lower cs)"

text \<open>\<open>str.isupper\<close>: no lowercase character and at least one uppercase character.\<close>

definition isupper :: "string \<Rightarrow> bool" where
  "isupper s = (\<not> list_ex islower_char s \<and> list_ex isupper_char s)"

definition lstrip :: "string \<Rightarrow> string" where
  "lstrip s = dropWhile isspace s"

definition rstrip :: "string \<Rightarrow> string" where
  "rstrip s = rev (dropWhile isspace (rev s))"

definition strip :: "string \<Rightarrow> string" where
  "strip s = rstrip (lstrip s)"

text \<open>\<open>s.replace(c, r)\<close> for a single character \<open>c\<close>, and \<open>sep.join(xs)\<close>.\<close>

definition replace :: "char \<Rightarrow> string \<Rightarrow> string \<Rightarrow> string" where
  "replace c r s = concat (map (\<lambda>x. if x = c then r else [x]) s)"

fun join :: "string \<Rightarrow> string list \<Rightarrow> string" where
  "join sep [] = []"
| "join sep [x] = x"
| "join sep (x # y # ys) = x @ sep @ join sep (y # ys)"

text \<open>\<open>s.split()\<close>: the maximal runs of characters that are not whitespace.
  \<open>s.split(sep)\<close> for a single character: the pieces between the separators, empty
  pieces included. The first argument is the piece read so far.\<close>

fun split_ws_from :: "string \<Rightarrow> string \<Rightarrow> string list" where
  "split_ws_from cur [] = (if cur = [] then [] else [cur])"
| "split_ws_from cur (c # cs) =
     (if isspace c then (if cur = [] then split_ws_from [] cs else cur # split_ws_from [] cs)
      else split_ws_from (cur @ [c]) cs)"

definition split_ws :: "string \<Rightarrow> string list" where
  "split_ws s = split_ws_from [] s"

fun split_from :: "char \<Rightarrow> string \<Rightarrow> string \<Rightarrow> string list" where
  "split_from sep cur [] = [cur]"
| "split_from sep cur (c # cs) =
     (if c = sep then cur # split_from sep [] cs else split_from sep (cur @ [c]) cs)"

definition split :: "char \<Rightarrow> string \<Rightarrow> string list" where
  "split sep s = split_from sep [] s"

text \<open>The decimal numeral of a natural number, as an f-string prints it.\<close>

fun dec :: "nat \<Rightarrow> string" where
  "dec n = (if n < 10 then [char_of (48 + n)] else dec (n div 10) @ [char_of (48 + n mod 10)])"

declare dec.simps [simp del]

section \<open>Regular expressions\<close>

text \<open>
  The patterns of the source are written in the constructors below, and matched as
  Python's backtracking matcher does: \<open>run r s g\<close> lists, in the order in which the
  matcher tries them, the ways in which \<open>r\<close> matches a prefix of \<open>s\<close>, each as the rest of
  the input with the groups captured so far. An alternative tries its left branch
  first; a star is greedy (one more repetition is tried before stopping). No starred
  pattern of the source matches the empty string, and a repetition that consumes nothing
  is not continued.
\<close>

type_synonym groups = "nat \<rightharpoonup> string"

datatype rx =
    Cls "char \<Rightarrow> bool"
  | Eps
  | Eos
  | Seq rx rx
  | Alt rx rx
  | Star rx
  | Grp nat rx

primrec star_run ::
  "nat \<Rightarrow> (string \<Rightarrow> groups \<Rightarrow> (string \<times> groups) list) \<Rightarrow> string \<Rightarrow> groups \<Rightarrow> (string \<times> groups) list" where
  "star_run 0 f s g = [(s, g)]"
| "star_run (Suc n) f s g =
     concat (map (\<lambda>(s', g'). if length s' < length s then star_run n f s' g' else []) (f s g))
     @ [(s, g)]"

text \<open>\<open>Eos\<close> is \<open>$\<close>: the end of the string, or the position before a newline that ends
  the string.\<close>

primrec run :: "rx \<Rightarrow> string \<Rightarrow> groups \<Rightarrow> (string \<times> groups) list" where
  "run (Cls p) = (\<lambda>s g. case s of [] \<Rightarrow> [] | c # cs \<Rightarrow> if p c then [(cs, g)] else [])"
| "run Eps = (\<lambda>s g. [(s, g)])"
| "run Eos = (\<lambda>s g. if s = [] \<or> s = [CHR 0x0A] then [(s, g)] else [])"
| "run (Seq a b) = (\<lambda>s g. concat (map (\<lambda>(s', g'). run b s' g') (run a s g)))"
| "run (Alt a b) = (\<lambda>s g. run a s g @ run b s g)"
| "run (Star a) = (\<lambda>s g. star_run (length s) (run a) s g)"
| "run (Grp i a) =
     (\<lambda>s g. map (\<lambda>(s', g'). (s', g'(i \<mapsto> take (length s - length s') s))) (run a s g))"

text \<open>\<open>re.match(pattern, s)\<close>: the groups of the first match at the start of \<open>s\<close>.\<close>

definition re_match :: "rx \<Rightarrow> string \<Rightarrow> groups option" where
  "re_match r s = (case run r s Map.empty of [] \<Rightarrow> None | (rest, g) # _ \<Rightarrow> Some g)"

text \<open>\<open>match.group(i)\<close>, and \<open>\i\<close> in a replacement; in the patterns of the source that
  use them, every group takes part in every match.\<close>

definition group :: "groups \<Rightarrow> nat \<Rightarrow> string" where
  "group g i = (case g i of None \<Rightarrow> [] | Some s \<Rightarrow> s)"

definition matches :: "rx \<Rightarrow> string \<Rightarrow> bool" where
  "matches r s = (re_match r s \<noteq> None)"

text \<open>\<open>re.sub(pattern, repl, s)\<close> for a pattern that does not match the empty string: the
  leftmost matches, not overlapping, each replaced by \<open>repl\<close> of its groups.\<close>

function re_sub :: "rx \<Rightarrow> (groups \<Rightarrow> string) \<Rightarrow> string \<Rightarrow> string" where
  "re_sub r repl [] = []"
| "re_sub r repl (c # cs) =
     (case run r (c # cs) Map.empty of
        [] \<Rightarrow> c # re_sub r repl cs
      | (rest, g) # _ \<Rightarrow>
          if length rest < length (c # cs) then repl g @ re_sub r repl rest
          else c # re_sub r repl cs)"
  by pat_completeness auto
termination
  by (relation "measure (\<lambda>(r, repl, s). length s)") auto

text \<open>The pieces of pattern syntax: a literal character, \<open>r?\<close>, \<open>r+\<close>, a literal string,
  \<open>r{n}\<close>, \<open>r{n,m}\<close> (as \<open>n\<close> copies and up to \<open>k = m - n\<close> more), and the sequence
  and the alternation of a list of patterns.\<close>

definition Chr :: "char \<Rightarrow> rx" where
  "Chr c = Cls (\<lambda>x. x = c)"

definition Opt :: "rx \<Rightarrow> rx" where
  "Opt r = Alt r Eps"

definition Plus :: "rx \<Rightarrow> rx" where
  "Plus r = Seq r (Star r)"

definition Seqs :: "rx list \<Rightarrow> rx" where
  "Seqs rs = foldr Seq rs Eps"

primrec Alts :: "rx list \<Rightarrow> rx" where
  "Alts [] = Cls (\<lambda>c. False)"
| "Alts (r # rs) = (if rs = [] then r else Alt r (Alts rs))"

definition Lit :: "string \<Rightarrow> rx" where
  "Lit s = Seqs (map Chr s)"

primrec Rep :: "nat \<Rightarrow> rx \<Rightarrow> rx" where
  "Rep 0 r = Eps"
| "Rep (Suc n) r = Seq r (Rep n r)"

primrec UpTo :: "nat \<Rightarrow> rx \<Rightarrow> rx" where
  "UpTo 0 r = Eps"
| "UpTo (Suc k) r = Opt (Seq r (UpTo k r))"

definition RepRange :: "nat \<Rightarrow> nat \<Rightarrow> rx \<Rightarrow> rx" where
  "RepRange n k r = Seq (Rep n r) (UpTo k r)"

text \<open>Under \<open>re.IGNORECASE\<close> a literal letter matches both of its cases.\<close>

definition IChr :: "char \<Rightarrow> rx" where
  "IChr c = Cls (\<lambda>x. lower_char x = lower_char c)"

definition ILit :: "string \<Rightarrow> rx" where
  "ILit s = Seqs (map IChr s)"

section \<open>Python values and the conversions \<open>int()\<close> and \<open>float()\<close>\<close>

text \<open>
  A float is kept as the number that its numeral denotes: \<open>Fin q\<close> stands for the
  binary64 value nearest to the rational \<open>q\<close> (infinite when \<open>q\<close> is beyond the range; the
  sign of a zero is not kept). Binary rounding itself is not modelled, so the quotient
  \<open>float(clean) / 100\<close> of a percentage cell has a constructor of its own,
  \<open>PFloatDiv100\<close>, instead of a rational computed from \<open>q\<close>.
\<close>

datatype pyfloat = Fin rat | PInf | NInf | NaN

datatype pyval =
    PNone
  | PBool bool
  | PInt int
  | PFloat pyfloat
  | PFloatDiv100 pyfloat
  | PStr string

text \<open>The \<open>ValueError\<close> of a failed conversion, with the string that was refused (the
  message of the exception quotes it).\<close>

datatype ValueError = FloatError string | IntError string

text \<open>The characters that \<open>int()\<close> and \<open>float()\<close> strip at both ends (CPython's set for
  these conversions, which lacks the separators 0x1C to 0x1F of \<open>str.isspace\<close>).\<close>

definition num_space :: "char \<Rightarrow> bool" where
  "num_space c = (between 0x09 c 0x0D \<or> code c = 0x20 \<or> code c = 0x85 \<or> code c = 0xA0)"

definition num_strip :: "string \<Rightarrow> string" where
  "num_strip s = rev (dropWhile num_space (rev (dropWhile num_space s)))"

definition digit_val :: "char \<Rightarrow> nat" where
  "digit_val c = code c - 48"

text \<open>\<open>digitpart ::= digit (["_"] digit)*\<close>: the digits read and the rest of the input.
  \<open>digits_from\<close> continues after at least one digit.\<close>

fun digits_from :: "nat list \<Rightarrow> string \<Rightarrow> nat list \<times> string" where
  "digits_from acc [] = (acc, [])"
| "digits_from acc [c] = (if decimal c then (acc @ [digit_val c], []) else (acc, [c]))"
| "digits_from acc (c # d # ds) =
     (if decimal c then digits_from (acc @ [digit_val c]) (d # ds)
      else if c = CHR ''_'' \<and> decimal d then digits_from (acc @ [digit_val d]) ds
      else (acc, c # d # ds))"

definition digitpart :: "string \<Rightarrow> nat list \<times> string" where
  "digitpart s = (case s of [] \<Rightarrow> ([], []) | c # cs \<Rightarrow> if decimal c then digits_from [] s else ([], s))"

definition nat_of_digits :: "nat list \<Rightarrow> nat" where
  "nat_of_digits ds = foldl (\<lambda>a d. 10 * a + d) 0 ds"

text \<open>An optional sign: whether it is a minus, and the rest.\<close>

definition sign :: "string \<Rightarrow> bool \<times> string" where
  "sign s =
     (case s of
        [] \<Rightarrow> (False, [])
      | c # cs \<Rightarrow> if c = CHR ''-'' then (True, cs) else if c = CHR ''+'' then (False, cs)
                 else (False, s))"

text \<open>\<open>int(s)\<close> in base 10: \<open>None\<close> is the \<open>ValueError\<close>. (CPython's optional limit on the
  number of digits, which raises the same exception, is not modelled.)\<close>

definition py_int :: "string \<Rightarrow> int option" where
  "py_int s =
     (case sign (num_strip s) of (neg, u) \<Rightarrow>
        case digitpart u of (ds, rest) \<Rightarrow>
          if ds \<noteq> [] \<and> rest = []
          then Some (if neg then - int (nat_of_digits ds) else int (nat_of_digits ds))
          else None)"

text \<open>\<open>exponent ::= ("e" | "E") [sign] digitpart\<close>, at the end of the input; no exponent
  is the exponent 0.\<close>

definition exponent :: "string \<Rightarrow> int option" where
  "exponent s =
     (case s of
        [] \<Rightarrow> Some 0
      | c # cs \<Rightarrow>
          if c = CHR ''e'' \<or> c = CHR ''E''
          then (case sign cs of (neg, v) \<Rightarrow>
                  case digitpart v of (ds, rest) \<Rightarrow>
                    if ds \<noteq> [] \<and> rest = []
                    then Some (if neg then - int (nat_of_digits ds) else int (nat_of_digits ds))
                    else None)
          else None)"

definition scale10 :: "rat \<Rightarrow> int \<Rightarrow> rat" where
  "scale10 q e = (if 0 \<le> e then q * 10 ^ nat e else q / 10 ^ nat (- e))"

text \<open>\<open>float(s)\<close>: \<open>None\<close> is the \<open>ValueError\<close>. The grammar is that of the library
  reference: an optional sign, then \<open>inf\<close>, \<open>infinity\<close> or \<open>nan\<close> in any case, or
  \<open>number [exponent]\<close> with \<open>number ::= [digitpart] "." digitpart | digitpart ["."]\<close>.\<close>

definition py_float :: "string \<Rightarrow> pyfloat option" where
  "py_float s =
     (case sign (num_strip s) of (neg, u) \<Rightarrow>
        if lower u = ''inf'' \<or> lower u = ''infinity'' then Some (if neg then NInf else PInf)
        else if lower u = ''nan'' then Some NaN
        else
          case digitpart u of (ip, r1) \<Rightarrow>
          case (case r1 of [] \<Rightarrow> (False, r1)
                | c # cs \<Rightarrow> if c = CHR ''.'' then (True, cs) else (False, r1)) of (has_dot, r2) \<Rightarrow>
          case (if has_dot then digitpart r2 else ([], r2)) of (fp, r3) \<Rightarrow>
            if ip = [] \<and> fp = [] then None
            else case exponent r3 of
                   None \<Rightarrow> None
                 | Some e \<Rightarrow>
                     (let q = of_nat (nat_of_digits ip)
                              + of_nat (nat_of_digits fp) / 10 ^ length fp
                      in Some (Fin (scale10 (if neg then - q else q) e))))"

section \<open>Table grid extraction (processors/tables.py)\<close>

text \<open>
  The heuristic extractor of \<open>TableExtractor\<close>. The image processing of
  \<open>_detect_lines\<close> (OpenCV) is outside the model: its result, the two lists of line
  rectangles, is an input of \<open>extract_heuristic\<close>, and so is the text recogniser.
  A bounding box is \<open>(x, y, width, height)\<close>. The constant confidences (0.6) are left
  out of the records.
\<close>

type_synonym bbox = "int \<times> int \<times> int \<times> int"

record TableCell =
  row :: nat
  col :: nat
  row_span :: nat
  col_span :: nat
  cell_text :: string
  cell_bbox :: bbox
  is_header :: bool

record Table =
  table_bbox :: bbox
  cells :: "TableCell list"
  num_rows :: nat
  num_cols :: nat
  has_header :: bool

text \<open>\<open>sorted(set(line[1] for line in horizontal_lines))\<close> and the same on \<open>line[0]\<close>;
  a line is the bounding rectangle \<open>(x, y, w, h)\<close> of a contour.\<close>

definition h_positions :: "bbox list \<Rightarrow> int list" where
  "h_positions horizontal_lines = sort (remdups (map (\<lambda>(x, y, w, h). y) horizontal_lines))"

definition v_positions :: "bbox list \<Rightarrow> int list" where
  "v_positions vertical_lines = sort (remdups (map (\<lambda>(x, y, w, h). x) vertical_lines))"

text \<open>\<open>zip(ps[:-1], ps[1:])\<close>: the consecutive pairs.\<close>

definition pairs :: "int list \<Rightarrow> (int \<times> int) list" where
  "pairs ps = zip (butlast ps) (tl ps)"

text \<open>\<open>_find_cells\<close>: one cell for each pair of consecutive horizontal positions and
  each pair of consecutive vertical positions.\<close>

definition find_cells :: "bbox list \<Rightarrow> bbox list \<Rightarrow> TableCell list" where
  "find_cells horizontal_lines vertical_lines =
     (let hp = h_positions horizontal_lines; vp = v_positions vertical_lines in
      if length hp < 2 \<or> length vp < 2 then []
      else concat (map (\<lambda>(row_idx, (y1, y2)).
             map (\<lambda>(col_idx, (x1, x2)).
               \<lparr> row = row_idx, col = col_idx, row_span = 1, col_span = 1, cell_text = [],
                 cell_bbox = (x1, y1, x2 - x1, y2 - y1), is_header = (row_idx = 0) \<rparr>)
               (enumerate 0 (pairs vp)))
             (enumerate 0 (pairs hp))))"

text \<open>The number of indices that the slice \<open>a:b\<close> selects on an axis of length \<open>n\<close>,
  and \<open>gray[y:y+h, x:x+w].size\<close> for an image of shape \<open>(height, width)\<close>.\<close>

definition slice_len :: "int \<Rightarrow> int \<Rightarrow> int \<Rightarrow> int" where
  "slice_len a b n =
     (let norm = (\<lambda>i. if i < 0 then max (i + n) 0 else min i n)
      in max 0 (norm b - norm a))"

definition window_size :: "int \<times> int \<Rightarrow> bbox \<Rightarrow> int" where
  "window_size shape b =
     (case (shape, b) of ((height, width), (x, y, w, h)) \<Rightarrow>
        slice_len y (y + h) height * slice_len x (x + w) width)"

text \<open>
  The loop that fills in the cell texts. \<open>ocr = None\<close> is the \<open>ImportError\<close> branch
  (pytesseract missing: the cells keep their empty text); \<open>Some image_to_string\<close> gives
  the text that the recogniser returns for a window of the image.
\<close>

definition read_cells :: "int \<times> int \<Rightarrow> (bbox \<Rightarrow> string) option \<Rightarrow> TableCell list \<Rightarrow> TableCell list" where
  "read_cells shape ocr cs =
     (case ocr of
        None \<Rightarrow> cs
      | Some image_to_string \<Rightarrow>
          map (\<lambda>c. if window_size shape (cell_bbox c) > 0
                    then c\<lparr>cell_text := strip (image_to_string (cell_bbox c))\<rparr> else c) cs)"

text \<open>\<open>_extract_heuristic\<close>, from the detected lines on.\<close>

definition extract_heuristic ::
  "int \<times> int \<Rightarrow> int \<times> int \<Rightarrow> (bbox \<Rightarrow> string) option \<Rightarrow> bbox list \<Rightarrow> bbox list \<Rightarrow> Table list" where
  "extract_heuristic shape offset ocr horizontal_lines vertical_lines =
     (if horizontal_lines = [] \<or> vertical_lines = [] then []
      else case read_cells shape ocr (find_cells horizontal_lines vertical_lines) of
        [] \<Rightarrow> []
      | c # cs \<Rightarrow>
          (let x_coords = map (\<lambda>c. fst (cell_bbox c)) cs;
               y_coords = map (\<lambda>c. fst (snd (cell_bbox c))) cs;
               widths = map (\<lambda>c. case cell_bbox c of (x, y, w, h) \<Rightarrow> x + w) cs;
               heights = map (\<lambda>c. case cell_bbox c of (x, y, w, h) \<Rightarrow> y + h) cs;
               min_x = fold min x_coords (fst (cell_bbox c));
               min_y = fold min y_coords (fst (snd (cell_bbox c)));
               max_w = fold max widths (case cell_bbox c of (x, y, w, h) \<Rightarrow> x + w);
               max_h = fold max heights (case cell_bbox c of (x, y, w, h) \<Rightarrow> y + h)
           in [\<lparr> table_bbox = (min_x + fst offset, min_y + snd offset, max_w - min_x, max_h - min_y),
                  cells = c # cs,
                  num_rows = fold max (map row cs) (row c) + 1,
                  num_cols = fold max (map col cs) (col c) + 1,
                  has_header = True \<rparr>]))"

section \<open>Reading order (processors/layout.py)\<close>

text \<open>
  The region detectors (a LayoutParser model or OpenCV contours) are outside the model:
  the list of detected regions is the input. The confidence of a region, its content and
  its children play no part in the reading order and are left out of the record.
\<close>

datatype RegionType = TEXT | TITLE | PARAGRAPH | LIST | TABLE | FIGURE | EQUATION
  | HEADER | FOOTER | UNKNOWN

record LayoutRegion =
  region_type :: RegionType
  region_bbox :: bbox
  order :: nat

definition left :: "LayoutRegion \<Rightarrow> int" where
  "left r = (case region_bbox r of (x, y, w, h) \<Rightarrow> x)"

definition top :: "LayoutRegion \<Rightarrow> int" where
  "top r = (case region_bbox r of (x, y, w, h) \<Rightarrow> y)"

definition height :: "LayoutRegion \<Rightarrow> int" where
  "height r = (case region_bbox r of (x, y, w, h) \<Rightarrow> h)"

text \<open>The test \<open>y_overlap\<close> of the grouping loop, between a region and the region added
  last to the current row.\<close>

definition y_overlap :: "LayoutRegion \<Rightarrow> LayoutRegion \<Rightarrow> bool" where
  "y_overlap region last_region =
     (top region < top last_region + height last_region
      \<and> top last_region < top region + height region)"

text \<open>The grouping loop over \<open>sorted_by_y\<close>; its state is \<open>rows\<close> and \<open>current_row\<close>.\<close>

fun group_rows ::
  "(nat \<times> LayoutRegion) list \<Rightarrow> (nat \<times> LayoutRegion) list list \<Rightarrow> (nat \<times> LayoutRegion) list
   \<Rightarrow> (nat \<times> LayoutRegion) list list \<times> (nat \<times> LayoutRegion) list" where
  "group_rows [] rows current_row = (rows, current_row)"
| "group_rows ((idx, region) # rest) rows current_row =
     (if current_row = [] then group_rows rest rows (current_row @ [(idx, region)])
      else if y_overlap region (snd (last current_row))
        then group_rows rest rows (current_row @ [(idx, region)])
        else group_rows rest (rows @ [current_row]) [(idx, region)])"

text \<open>The rows at the end of the loop, the last one appended when it is not empty.
  Python's \<open>sorted\<close> is stable, as \<open>sort_key\<close> is.\<close>

definition reading_rows :: "LayoutRegion list \<Rightarrow> (nat \<times> LayoutRegion) list list" where
  "reading_rows regions =
     (let sorted_by_y = sort_key (\<lambda>x. top (snd x)) (enumerate 0 regions) in
      case group_rows sorted_by_y [] [] of
        (rows, current_row) \<Rightarrow> if current_row \<noteq> [] then rows @ [current_row] else rows)"

definition determine_reading_order :: "LayoutRegion list \<Rightarrow> nat list" where
  "determine_reading_order regions =
     (if regions = [] then []
      else concat (map (\<lambda>row. map fst (sort_key (\<lambda>x. left (snd x)) row)) (reading_rows regions)))"

text \<open>The loop of \<open>detect\<close> that writes the order indices into the regions:
  \<open>regions[region_idx].order = idx\<close> for each \<open>(idx, region_idx)\<close> of the enumerated
  reading order. An index outside the list would raise \<open>IndexError\<close>: \<open>None\<close>.\<close>

fun update_order :: "(nat \<times> nat) list \<Rightarrow> LayoutRegion list \<Rightarrow> LayoutRegion list option" where
  "update_order [] regions = Some regions"
| "update_order ((idx, region_idx) # rest) regions =
     (if region_idx < length regions
      then update_order rest (regions[region_idx := (regions ! region_idx)\<lparr>order := idx\<rparr>])
      else None)"

definition detect_order :: "LayoutRegion list \<Rightarrow> LayoutRegion list option" where
  "detect_order regions = update_order (enumerate 0 (determine_reading_order regions)) regions"

section \<open>Table alignment (processors/table_alignment.py)\<close>

text \<open>
  The cells of the input matrix are strings, so \<open>str(value)\<close> is the cell itself. The
  keys of \<open>type_counts\<close> are the constructors of \<open>ColType\<close>.
\<close>

datatype ColType = Currency | Percentage | Number | Date | Text

record CellError =
  err_row :: nat
  err_col :: nat
  err_value :: string
  expected_type :: ColType
  err_error :: ValueError

record AlignedTable =
  headers :: "string list"
  rows :: "pyval list list"
  column_types :: "ColType list"
  validation_errors :: "CellError list"
  normalized :: bool

text \<open>The patterns of \<open>__init__\<close>:
  \<^verbatim>\<open>^[\$...]?\s*-?[\d,]+\.?\d*$\<close> (the class of currency signs holds the dollar, pound,
  euro and yen signs),
  \<^verbatim>\<open>^-?[\d\.]+\s*%$\<close> and the three date patterns
  \<^verbatim>\<open>^\d{1,2}[/-]\d{1,2}[/-]\d{2,4}$\<close>,
  \<^verbatim>\<open>^\d{4}[/-]\d{1,2}[/-]\d{1,2}$\<close>,
  \<^verbatim>\<open>^(?:Jan|Feb|Mar|Apr|May|Jun|Jul|Aug|Sep|Oct|Nov|Dec)[a-z]*\s+\d{1,2},?\s+\d{4}$\<close>
  (the last one with \<open>re.IGNORECASE\<close>). The pound sign is 0xA3 and the yen sign 0xA5.\<close>

definition currency_pattern :: rx where
  "currency_pattern =
     Seqs [Opt (Cls (\<lambda>c. c = CHR ''$'' \<or> code c = 0xA3 \<or> code c = 0xA5)),
           Star (Cls isspace), Opt (Chr CHR ''-''),
           Plus (Cls (\<lambda>c. decimal c \<or> c = CHR '','')),
           Opt (Chr CHR ''.''), Star (Cls decimal), Eos]"

definition percentage_pattern :: rx where
  "percentage_pattern =
     Seqs [Opt (Chr CHR ''-''), Plus (Cls (\<lambda>c. decimal c \<or> c = CHR ''.'')),
           Star (Cls isspace), Chr CHR ''%'', Eos]"

definition date_sep :: rx where
  "date_sep = Cls (\<lambda>c. c = CHR ''/'' \<or> c = CHR ''-'')"

definition date_patterns :: "rx list" where
  "date_patterns =
     [Seqs [RepRange 1 1 (Cls decimal), date_sep, RepRange 1 1 (Cls decimal), date_sep,
            RepRange 2 2 (Cls decimal), Eos],
      Seqs [Rep 4 (Cls decimal), date_sep, RepRange 1 1 (Cls decimal), date_sep,
            RepRange 1 1 (Cls decimal), Eos],
      Seqs [Alts (map ILit [''Jan'', ''Feb'', ''Mar'', ''Apr'', ''May'', ''Jun'',
                            ''Jul'', ''Aug'', ''Sep'', ''Oct'', ''Nov'', ''Dec'']),
            Star (Cls (\<lambda>c. between 0x61 (lower_char c) 0x7A)),
            Plus (Cls isspace), RepRange 1 1 (Cls decimal), Opt (Chr CHR '',''),
            Plus (Cls isspace), Rep 4 (Cls decimal), Eos]]"

text \<open>\<open>_normalize_columns\<close>; \<open>max(len(row) for row in matrix)\<close> is taken of a matrix that
  is not empty.\<close>

definition normalize_columns :: "string list list \<Rightarrow> string list list" where
  "normalize_columns matrix =
     (case matrix of
        [] \<Rightarrow> matrix
      | r # rs \<Rightarrow>
          (let max_cols = fold max (map length rs) (length r) in
           map (\<lambda>row. if length row < max_cols
                       then row @ replicate (max_cols - length row) [] else row) matrix))"

text \<open>\<open>_clean_headers\<close>. The \<open>while\<close> loop that makes a name unique runs on \<open>clean\<close> and
  \<open>counter\<close>; \<open>seen\<close> is the list of the lower-cased names taken so far.\<close>

definition clean_text :: "string \<Rightarrow> string" where
  "clean_text header =
     (let clean = strip header;
          clean = re_sub (Plus (Cls isspace)) (\<lambda>g. '' '') clean;
          clean = re_sub (Cls (\<lambda>c. \<not> (word_char c \<or> isspace c \<or> c = CHR ''-''))) (\<lambda>g. []) clean
      in clean)"

text \<open>The loop ends because the names \<open>original_1\<close>, \<open>original_2\<close>, ... are pairwise
  different, also after lower-casing, and \<open>seen\<close> is finite.\<close>

lemma code_char_of: "(n::nat) < 256 \<Longrightarrow> code (char_of n) = n"
  by (simp add: code_def)

lemma decimal_digit: "(d::nat) < 10 \<Longrightarrow> decimal (char_of (48 + d))"
  by (simp add: decimal_def between_def code_char_of)

lemma digit_val_digit: "(d::nat) < 10 \<Longrightarrow> digit_val (char_of (48 + d)) = d"
  by (simp add: digit_val_def code_char_of)

lemma nat_of_digits_snoc: "nat_of_digits (ds @ [d]) = 10 * nat_of_digits ds + d"
  by (simp add: nat_of_digits_def)

lemma dec_inverse: "nat_of_digits (map digit_val (dec n)) = n"
proof (induction n rule: dec.induct)
  case (1 n)
  show ?case
  proof (cases "n < 10")
    case True
    then show ?thesis
      by (simp add: dec.simps [of n] nat_of_digits_def digit_val_digit)
  next
    case False
    with 1 show ?thesis
      by (simp add: dec.simps [of n] nat_of_digits_snoc digit_val_digit)
  qed
qed

lemma dec_inj: "dec m = dec n \<Longrightarrow> m = n"
  by (metis dec_inverse)

lemma dec_decimal: "c \<in> set (dec n) \<Longrightarrow> decimal c"
proof (induction n rule: dec.induct)
  case (1 n)
  then show ?case
    by (cases "n < 10") (auto simp: dec.simps [of n] decimal_digit)
qed

lemma lower_decimal: "decimal c \<Longrightarrow> lower_char c = c"
  by (auto simp: lower_char_def decimal_def isupper_char_def between_def)

lemma lower_dec: "lower (dec n) = dec n"
  by (simp add: lower_def map_idI dec_decimal lower_decimal)

lemma candidate_inj:
  "lower (original @ ''_'' @ dec m) = lower (original @ ''_'' @ dec n) \<Longrightarrow> m = n"
proof -
  assume "lower (original @ ''_'' @ dec m) = lower (original @ ''_'' @ dec n)"
  then have "lower (dec m) = lower (dec n)"
    by (simp add: lower_def)
  then show "m = n"
    by (simp add: lower_dec dec_inj)
qed

lemma finite_taken:
  "finite {k. lower (original @ ''_'' @ dec k) \<in> set seen}"
proof -
  have "inj (\<lambda>k. lower (original @ ''_'' @ dec k))"
    by (rule injI) (rule candidate_inj)
  then show ?thesis
    using finite_vimageI [of "set seen" "\<lambda>k. lower (original @ ''_'' @ dec k)"]
    by (simp add: vimage_def)
qed

text \<open>\<open>while clean.lower() in seen: clean = f"{original}_{counter}"; counter += 1\<close>\<close>

function unique_name :: "string list \<Rightarrow> string \<Rightarrow> string \<Rightarrow> nat \<Rightarrow> string" where
  "unique_name seen original clean counter =
     (if lower clean \<in> set seen
      then unique_name seen original (original @ ''_'' @ dec counter) (counter + 1)
      else clean)"
  by pat_completeness auto
termination
proof (relation "measure (\<lambda>(seen, original, clean, counter).
         if lower clean \<in> set seen
         then Suc (card {k. counter \<le> k \<and> lower (original @ ''_'' @ dec k) \<in> set seen}) else 0)")
  show "wf (measure (\<lambda>(seen, original, clean, counter).
         if lower clean \<in> set seen
         then Suc (card {k. counter \<le> k \<and> lower (original @ ''_'' @ dec k) \<in> set seen}) else 0))"
    by simp
next
  fix seen :: "string list" and original clean :: string and counter :: nat
  let ?T = "\<lambda>c. {k. c \<le> k \<and> lower (original @ ''_'' @ dec k) \<in> set seen}"
  assume taken: "lower clean \<in> set seen"
  have fin: "finite (?T c)" for c
    by (rule finite_subset [OF _ finite_taken [of original seen]]) auto
  have "card (?T (counter + 1)) < card (?T counter)"
    if "lower (original @ ''_'' @ dec counter) \<in> set seen"
  proof (rule psubset_card_mono [OF fin])
    have "counter \<in> ?T counter" "counter \<notin> ?T (counter + 1)"
      using that by simp_all
    moreover have "?T (counter + 1) \<subseteq> ?T counter"
      by auto
    ultimately show "?T (counter + 1) \<subset> ?T counter"
      by blast
  qed
  with taken
  show "((seen, original, original @ ''_'' @ dec counter, counter + 1), seen, original, clean, counter)
        \<in> measure (\<lambda>(seen, original, clean, counter).
         if lower clean \<in> set seen
         then Suc (card {k. counter \<le> k \<and> lower (original @ ''_'' @ dec k) \<in> set seen}) else 0)"
    by simp
qed

declare unique_name.simps [simp del]


text \<open>The loop over the enumerated headers; its state is \<open>cleaned\<close> and \<open>seen\<close>.\<close>

fun clean_loop :: "(nat \<times> string) list \<Rightarrow> string list \<Rightarrow> string list \<Rightarrow> string list" where
  "clean_loop [] cleaned seen = cleaned"
| "clean_loop ((i, header) # rest) cleaned seen =
     (let clean = clean_text header;
          clean = (if clean = [] then ''Column '' @ dec (i + 1) else clean);
          clean = unique_name seen clean clean 1
      in clean_loop rest (cleaned @ [clean]) (lower clean # seen))"

definition clean_headers :: "string list \<Rightarrow> string list" where
  "clean_headers hs = clean_loop (enumerate 0 hs) [] []"

text \<open>\<open>_is_number\<close> and the \<open>if\<close>/\<open>elif\<close> chain of \<open>_detect_type\<close> for one stripped value that
  is not empty.\<close>

definition is_number :: "string \<Rightarrow> bool" where
  "is_number v = (py_float (replace CHR '' '' [] (replace CHR '','' [] v)) \<noteq> None)"

definition classify :: "string \<Rightarrow> ColType" where
  "classify str_value =
     (if matches currency_pattern str_value then Currency
      else if matches percentage_pattern str_value then Percentage
      else if list_ex (\<lambda>p. matches p str_value) date_patterns then Date
      else if is_number str_value then Number
      else Text)"

text \<open>\<open>_detect_type\<close>. \<open>type_counts\<close> is the dictionary in its insertion order: currency,
  percentage, number, date, text. \<open>max(type_counts, key=type_counts.get)\<close> walks the keys
  in that order and keeps the first key whose count no later key exceeds.\<close>

definition type_counts0 :: "(ColType \<times> nat) list" where
  "type_counts0 = [(Currency, 0), (Percentage, 0), (Number, 0), (Date, 0), (Text, 0)]"

definition bump :: "ColType \<Rightarrow> (ColType \<times> nat) list \<Rightarrow> (ColType \<times> nat) list" where
  "bump t counts = map (\<lambda>(k, n). if k = t then (k, n + 1) else (k, n)) counts"

definition count_value :: "string \<Rightarrow> (ColType \<times> nat) list \<Rightarrow> (ColType \<times> nat) list" where
  "count_value v counts =
     (let str_value = strip v in if str_value = [] then counts else bump (classify str_value) counts)"

fun max_key :: "(ColType \<times> nat) list \<Rightarrow> ColType \<times> nat \<Rightarrow> ColType" where
  "max_key [] (best, n) = best"
| "max_key ((k, m) # rest) (best, n) = (if n < m then max_key rest (k, m) else max_key rest (best, n))"

definition detect_type :: "string list \<Rightarrow> ColType" where
  "detect_type vs =
     (let type_counts = fold count_value vs type_counts0 in
      if sum_list (map snd type_counts) = 0 then Text
      else max_key (tl type_counts) (hd type_counts))"

text \<open>\<open>_detect_column_types\<close>: the columns are those of the first row; a shorter row has no
  value in a column beyond its length.\<close>

definition detect_column_types :: "string list list \<Rightarrow> ColType list" where
  "detect_column_types rs =
     (case rs of
        [] \<Rightarrow> []
      | r # _ \<Rightarrow>
          map (\<lambda>col_idx. detect_type (map (\<lambda>row. row ! col_idx) (filter (\<lambda>row. col_idx < length row) rs)))
            [0..<length r])"

text \<open>\<open>_parse_value\<close>: \<open>Inl\<close> is the \<open>ValueError\<close> of \<open>float\<close> or \<open>int\<close>. The pattern
  of the currency branch is \<^verbatim>\<open>[^\d.-]\<close>.\<close>

definition to_float :: "string \<Rightarrow> ValueError + pyfloat" where
  "to_float s = (case py_float s of None \<Rightarrow> Inl (FloatError s) | Some f \<Rightarrow> Inr f)"

definition to_int :: "string \<Rightarrow> ValueError + int" where
  "to_int s = (case py_int s of None \<Rightarrow> Inl (IntError s) | Some i \<Rightarrow> Inr i)"

definition parse_value :: "string \<Rightarrow> ColType \<Rightarrow> ValueError + pyval" where
  "parse_value v t =
     (if v = [] then Inr PNone
      else case t of
        Currency \<Rightarrow>
          (let clean = re_sub (Cls (\<lambda>c. \<not> (decimal c \<or> c = CHR ''.'' \<or> c = CHR ''-''))) (\<lambda>g. []) v
           in if clean = [] then Inr (PFloat (Fin 0)) else map_sum id PFloat (to_float clean))
      | Percentage \<Rightarrow>
          (let clean = strip (replace CHR ''%'' [] v)
           in if clean = [] then Inr (PFloat (Fin 0)) else map_sum id PFloatDiv100 (to_float clean))
      | Number \<Rightarrow>
          (let clean = strip (replace CHR '','' [] v)
           in if CHR ''.'' \<in> set clean then map_sum id PFloat (to_float clean)
              else map_sum id PInt (to_int clean))
      | Date \<Rightarrow> Inr (PStr v)
      | Text \<Rightarrow> Inr (PStr v))"

text \<open>\<open>_parse_and_validate\<close>. The body of the inner loop gives, for one cell, the value
  appended to \<open>parsed_row\<close> and the errors appended to \<open>errors\<close> (none or one); the two
  loops collect them in row-major order.\<close>

definition parse_cell :: "ColType list \<Rightarrow> nat \<Rightarrow> nat \<Rightarrow> string \<Rightarrow> pyval \<times> CellError list" where
  "parse_cell cts row_idx col_idx v =
     (let col_type = (if col_idx < length cts then cts ! col_idx else Text);
          str_value = strip v
      in case parse_value str_value col_type of
           Inr parsed_value \<Rightarrow> (parsed_value, [])
         | Inl e \<Rightarrow>
             (PStr str_value,
              [\<lparr>err_row = row_idx, err_col = col_idx, err_value = str_value,
                 expected_type = col_type, err_error = e\<rparr>]))"

definition parse_and_validate ::
  "string list list \<Rightarrow> ColType list \<Rightarrow> pyval list list \<times> CellError list" where
  "parse_and_validate rs cts =
     (let cells = map (\<lambda>(row_idx, row). map (\<lambda>(col_idx, v). parse_cell cts row_idx col_idx v)
                                          (enumerate 0 row)) (enumerate 0 rs)
      in (map (map fst) cells, concat (map (\<lambda>row. concat (map snd row)) cells)))"

text \<open>\<open>align\<close>, from the matrix of the table on (a table without the key \<open>matrix\<close> has the
  empty matrix).\<close>

definition align :: "string list list \<Rightarrow> bool \<Rightarrow> AlignedTable" where
  "align matrix0 with_header =
     (if matrix0 = [] then
        \<lparr>headers = [], rows = [], column_types = [], validation_errors = [], normalized = True\<rparr>
      else
        (let matrix = normalize_columns matrix0;
             (hs, data_rows) =
               (if with_header \<and> length matrix > 0 then (map strip (hd matrix), tl matrix)
                else (map (\<lambda>i. ''Column '' @ dec (i + 1)) [0..<length (hd matrix)], matrix));
             hs = clean_headers hs;
             cts = detect_column_types data_rows;
             (parsed_rows, errors) = parse_and_validate data_rows cts
         in \<lparr>headers = hs, rows = parsed_rows, column_types = cts,
              validation_errors = errors, normalized = True\<rparr>))"

subsection \<open>The notions of the claims about type inference\<close>

text \<open>
  These three definitions follow the words of the specification, not the code: the
  number of votes that a list of cell values gives to a type (the cells that are not
  empty after stripping and are classified into it), the rank of a type in an order of
  priority (the order in which the keys of \<open>type_counts\<close> are listed), and the values of
  column \<open>j\<close> of a list of rows.
\<close>

definition votes :: "string list \<Rightarrow> ColType \<Rightarrow> nat" where
  "votes vs t = length (filter (\<lambda>v. strip v \<noteq> [] \<and> classify (strip v) = t) vs)"

fun priority :: "ColType \<Rightarrow> nat" where
  "priority Currency = 0"
| "priority Percentage = 1"
| "priority Number = 2"
| "priority Date = 3"
| "priority Text = 4"

definition column :: "nat \<Rightarrow> string list list \<Rightarrow> string list" where
  "column j rs = map (\<lambda>row. row ! j) (filter (\<lambda>row. j < length row) rs)"

text \<open>The rows that \<open>align\<close> parses (its variable \<open>data_rows\<close>): the normalized matrix,
  without its first row when that row is the header.\<close>

definition data_rows :: "string list list \<Rightarrow> bool \<Rightarrow> string list list" where
  "data_rows matrix with_header =
     (if with_header then tl (normalize_columns matrix) else normalize_columns matrix)"

text \<open>The validation errors recorded for the cell in row \<open>i\<close> and column \<open>j\<close> of the data
  rows.\<close>

definition at_cell :: "nat \<Rightarrow> nat \<Rightarrow> CellError \<Rightarrow> bool" where
  "at_cell i j e = (err_row e = i \<and> err_col e = j)"

section \<open>Key-value extraction and metadata (processors/structuring.py)\<close>

text \<open>The patterns of \<open>key_value_patterns\<close>, in their order:
  \<^verbatim>\<open>^([A-Za-z\s]+):\s*(.+)$\<close>,
  \<^verbatim>\<open>^([A-Za-z\s]+)\s*-\s*(.+)$\<close> and
  \<^verbatim>\<open>^([A-Za-z\s]+)\s{2,}(.+)$\<close>.
  The dot matches every character but the newline.\<close>

definition label_char :: "char \<Rightarrow> bool" where
  "label_char c = (between 0x41 c 0x5A \<or> between 0x61 c 0x7A \<or> isspace c)"

definition dot :: "char \<Rightarrow> bool" where
  "dot c = (c \<noteq> CHR 0x0A)"

definition key_value_patterns :: "rx list" where
  "key_value_patterns =
     [Seqs [Grp 1 (Plus (Cls label_char)), Chr CHR '':'', Star (Cls isspace),
            Grp 2 (Plus (Cls dot)), Eos],
      Seqs [Grp 1 (Plus (Cls label_char)), Star (Cls isspace), Chr CHR ''-'', Star (Cls isspace),
            Grp 2 (Plus (Cls dot)), Eos],
      Seqs [Grp 1 (Plus (Cls label_char)), Rep 2 (Cls isspace), Star (Cls isspace),
            Grp 2 (Plus (Cls dot)), Eos]]"

text \<open>The inner loop of \<open>_extract_key_values\<close>: the match of the first pattern, in the
  order of the list, that matches the line.\<close>

fun first_match :: "rx list \<Rightarrow> string \<Rightarrow> groups option" where
  "first_match [] s = None"
| "first_match (p # ps) s = (case re_match p s of Some g \<Rightarrow> Some g | None \<Rightarrow> first_match ps s)"

text \<open>\<open>_parse_value\<close> of the structurer. The tuples are searched in their order; the
  \<open>ValueError\<close> of \<open>float\<close> or \<open>int\<close> is passed over and the value returned as it is. Of the
  four characters removed, the euro sign is outside the model.\<close>

definition structurer_parse_value :: "string \<Rightarrow> pyval" where
  "structurer_parse_value v =
     (if lower v \<in> set [''yes'', ''true'', ''y''] then PBool True
      else if lower v \<in> set [''no'', ''false'', ''n''] then PBool False
      else
        (let clean_value = replace (CHR 0xA3) [] (replace CHR ''$'' [] (replace CHR '','' [] v))
         in if CHR ''.'' \<in> set clean_value
            then (case py_float clean_value of Some f \<Rightarrow> PFloat f | None \<Rightarrow> PStr v)
            else (case py_int clean_value of Some i \<Rightarrow> PInt i | None \<Rightarrow> PStr v)))"

text \<open>A dictionary with string keys, in insertion order: \<open>d[key] = value\<close> replaces the
  value of a key that is present, in its place, and appends a new key.\<close>

fun dict_set :: "'k \<Rightarrow> 'v \<Rightarrow> ('k \<times> 'v) list \<Rightarrow> ('k \<times> 'v) list" where
  "dict_set k v [] = [(k, v)]"
| "dict_set k v ((k', v') # d) = (if k' = k then (k, v) # d else (k', v') # dict_set k v d)"

text \<open>The body of the outer loop of \<open>_extract_key_values\<close> for one line: the entry that the
  line sets, if a pattern matches it.\<close>

definition line_entry :: "string \<Rightarrow> (string \<times> pyval) option" where
  "line_entry line0 =
     (let line = strip line0 in
      case first_match key_value_patterns line of
        None \<Rightarrow> None
      | Some g \<Rightarrow>
          (let key = replace CHR '' '' ''_'' (lower (strip (group g 1)));
               v = strip (group g 2)
           in Some (key, structurer_parse_value v)))"

definition extract_key_values :: "string \<Rightarrow> (string \<times> pyval) list" where
  "extract_key_values txt =
     fold (\<lambda>line key_values.
             case line_entry line of
               None \<Rightarrow> key_values
             | Some (key, parsed_value) \<Rightarrow> dict_set key parsed_value key_values)
          (split (CHR 0x0A) txt) []"










subsection \<open>The notions of the claims about key-value extraction\<close>



definition kv_lines :: "string \<Rightarrow> (string \<times> pyval) list" where
  "kv_lines txt = List.map_filter line_entry (split (CHR 0x0A) txt)"


text \<open>The body of the loop of \<open>_extract_key_values\<close>, from a line and the dictionary so far
  to the dictionary after the line.\<close>

definition kv_step :: "string \<Rightarrow> (string \<times> pyval) list \<Rightarrow> (string \<times> pyval) list" where
  "kv_step line key_values =
     (case line_entry line of
        None \<Rightarrow> key_values
      | Some (key, parsed_value) \<Rightarrow> dict_set key parsed_value key_values)"
section \<open>Error correction (processors/error_correction.py)\<close>

text \<open>The table \<open>word_corrections\<close> and the set \<open>domain_words\<close> of the corrector.\<close>

definition word_corrections :: "(string \<times> string) list" where
  "word_corrections =
     [(''teh'', ''the''), (''adn'', ''and''), (''fo'', ''of''), (''ot'', ''to''),
      (''taht'', ''that''), (''wiht'', ''with''), (''fro'', ''for''), (''jsut'', ''just''),
      (''nto'', ''not''), (''hte'', ''the'')]"

definition domain_words :: "string list" where
  "domain_words =
     [''invoice'', ''receipt'', ''total'', ''subtotal'', ''tax'', ''amount'',
      ''date'', ''number'', ''quantity'', ''price'', ''description'', ''unit'',
      ''customer'', ''vendor'', ''address'', ''phone'', ''email'', ''payment'',
      ''due'', ''balance'', ''paid'', ''discount'', ''shipping'', ''handling'']"

text \<open>\<open>_looks_like_number\<close>: the characters of the class \<^verbatim>\<open>[0-9OoIl|.,\-$%]\<close> are removed,
  and at most three tenths of the characters may remain. The product \<open>len(text) * 0.3\<close>
  is a float; it is the integer \<open>3 * len(text) / 10\<close> exactly when that is an integer,
  so the comparison is the one of the integers below.\<close>

definition number_like :: "char \<Rightarrow> bool" where
  "number_like c = (decimal c \<or> c \<in> set ''OoIl|.,-$%'')"

definition looks_like_number :: "string \<Rightarrow> bool" where
  "looks_like_number txt =
     (let cleaned = re_sub (Cls number_like) (\<lambda>g. []) txt
      in 10 * length cleaned \<le> 3 * length txt)"

text \<open>\<open>_correct_number\<close>.\<close>

definition number_corrections :: "(char \<times> char) list" where
  "number_corrections =
     [(CHR ''O'', CHR ''0''), (CHR ''o'', CHR ''0''),
      (CHR ''I'', CHR ''1''), (CHR ''l'', CHR ''1''), (CHR ''|'', CHR ''1''),
      (CHR ''S'', CHR ''5''), (CHR ''s'', CHR ''5''),
      (CHR ''B'', CHR ''8''),
      (CHR ''Z'', CHR ''2''), (CHR ''z'', CHR ''2'')]"

definition correct_number :: "string \<Rightarrow> string" where
  "correct_number txt =
     fold (\<lambda>char result.
             case map_of number_corrections char of
               Some d \<Rightarrow> if \<not> isdigit char then result @ [d] else result @ [char]
             | None \<Rightarrow> result @ [char])
          txt []"

text \<open>
  \<open>_find_best_match\<close>. Two things that the source leaves to its libraries are parameters
  of the model. \<open>ratio a b\<close> is \<open>SequenceMatcher(None, a, b).ratio()\<close> of difflib, kept as
  the rational number \<open>2 * M / T\<close> whose float it is; the threshold 0.8 is \<open>4 / 5\<close>. The
  list \<open>dictionary\<close> is the words of the set in the order in which the loop over the set
  meets them. Of the result \<open>(best_match, best_score) if best_match else None\<close>, the
  condition is false for \<open>None\<close> and for the empty string.
\<close>

definition find_best_match ::
  "(string \<Rightarrow> string \<Rightarrow> rat) \<Rightarrow> string \<Rightarrow> string list \<Rightarrow> rat \<Rightarrow> (string \<times> rat) option" where
  "find_best_match ratio word dictionary threshold =
     (case fold (\<lambda>dict_word (best_match, best_score).
                   if \<bar>int (length word) - int (length dict_word)\<bar> > 2
                   then (best_match, best_score)
                   else (let score = ratio word dict_word
                         in if score > best_score then (Some dict_word, score)
                            else (best_match, best_score)))
                dictionary (None, threshold) of
        (Some w, best_score) \<Rightarrow> if w \<noteq> [] then Some (w, best_score) else None
      | (None, best_score) \<Rightarrow> None)"

text \<open>The case of the word is given to its correction: upper case if the word is upper
  case, else a capital if the word begins with one. \<open>None\<close> is the \<open>IndexError\<close> of
  \<open>word[0]\<close> for an empty word.\<close>

definition preserve_case :: "string \<Rightarrow> string \<Rightarrow> string option" where
  "preserve_case word corrected =
     (if isupper word then Some (upper corrected)
      else case word of
             [] \<Rightarrow> None
           | c # cs \<Rightarrow> Some (if isupper_char c then capitalize corrected else corrected))"

text \<open>\<open>_correct_word\<close>: the correction and its type. The argument \<open>context\<close>, which the
  source does not read, is left out; \<open>iter\<close> is the order in which the set \<open>domain_words\<close>
  is iterated.\<close>

definition correct_word ::
  "(string \<Rightarrow> string \<Rightarrow> rat) \<Rightarrow> string list \<Rightarrow> string \<Rightarrow> (string \<times> string) option" where
  "correct_word ratio iter word =
     (let lower_word = lower word in
      case map_of word_corrections lower_word of
        Some corrected \<Rightarrow>
          map_option (\<lambda>c. (c, ''word_correction'')) (preserve_case word corrected)
      | None \<Rightarrow>
          if lower_word \<in> set domain_words then Some (word, ''no_correction'')
          else if looks_like_number word \<and> correct_number word \<noteq> word
          then Some (correct_number word, ''number_correction'')
          else
            (case find_best_match ratio lower_word iter (4 / 5) of
               Some (w, score) \<Rightarrow>
                 if score > 4 / 5
                 then map_option (\<lambda>c. (c, ''domain_match'')) (preserve_case word w)
                 else Some (word, ''no_correction'')
             | None \<Rightarrow> Some (word, ''no_correction'')))"

text \<open>\<open>_fix_spacing\<close>: the substitutions of
  \<^verbatim>\<open> +\<close> by a space,
  \<^verbatim>\<open> ([.,;:!?])\<close> by \<^verbatim>\<open>\1\<close>,
  \<^verbatim>\<open>([.,;:!?])([A-Za-z])\<close> by \<^verbatim>\<open>\1 \2\<close>,
  \<^verbatim>\<open>\$ +\<close> by a dollar sign and
  \<^verbatim>\<open>(\d) +%\<close> by \<^verbatim>\<open>\1%\<close>, in this order, and then \<open>strip\<close>.\<close>

definition punct :: "char \<Rightarrow> bool" where
  "punct c = (c \<in> set ''.,;:!?'')"

definition ascii_letter :: "char \<Rightarrow> bool" where
  "ascii_letter c = (between 0x41 c 0x5A \<or> between 0x61 c 0x7A)"

definition fix_spacing :: "string \<Rightarrow> string" where
  "fix_spacing txt =
     (let t1 = re_sub (Plus (Chr CHR '' '')) (\<lambda>g. '' '') txt;
          t2 = re_sub (Seq (Chr CHR '' '') (Grp 1 (Cls punct))) (\<lambda>g. group g 1) t1;
          t3 = re_sub (Seq (Grp 1 (Cls punct)) (Grp 2 (Cls ascii_letter)))
                      (\<lambda>g. group g 1 @ '' '' @ group g 2) t2;
          t4 = re_sub (Seq (Chr CHR ''$'') (Plus (Chr CHR '' ''))) (\<lambda>g. ''$'') t3;
          t5 = re_sub (Seqs [Grp 1 (Cls decimal), Plus (Chr CHR '' ''), Chr CHR ''%''])
                      (\<lambda>g. group g 1 @ ''%'') t4
      in strip t5)"

text \<open>A correction record, with the keys \<open>original\<close>, \<open>corrected\<close> and \<open>type\<close> of the
  dictionary that the source appends.\<close>

record Correction =
  rec_original :: string
  rec_corrected :: string
  rec_type :: string

text \<open>The two loops at the head of the body of \<open>correct\<close>: the characters that are not
  alphanumeric are moved from the start of the word to \<open>prefix\<close>, then from its end to
  \<open>suffix\<close>.\<close>

definition split_punct :: "string \<Rightarrow> string \<times> string \<times> string" where
  "split_punct word0 =
     (let prefix = takeWhile (\<lambda>c. \<not> isalnum c) word0;
          word1 = dropWhile (\<lambda>c. \<not> isalnum c) word0;
          suffix = rev (takeWhile (\<lambda>c. \<not> isalnum c) (rev word1));
          word = rev (dropWhile (\<lambda>c. \<not> isalnum c) (rev word1))
      in (prefix, word, suffix))"

text \<open>The body of the loop of \<open>correct\<close> for one word, on the lists \<open>corrections\<close> and
  \<open>corrected_words\<close>, and the loop.\<close>

definition correct_step ::
  "(string \<Rightarrow> string \<Rightarrow> rat) \<Rightarrow> string list \<Rightarrow> string
     \<Rightarrow> Correction list \<times> string list \<Rightarrow> (Correction list \<times> string list) option" where
  "correct_step ratio iter word0 st =
     (case st of (corrections, corrected_words) \<Rightarrow>
      case split_punct word0 of (prefix, word, suffix) \<Rightarrow>
        if word = [] then Some (corrections, corrected_words @ [prefix @ suffix])
        else
          (case correct_word ratio iter word of
             None \<Rightarrow> None
           | Some (corrected, correction_type) \<Rightarrow>
               Some (if corrected \<noteq> word
                     then corrections @ [\<lparr>rec_original = word, rec_corrected = corrected,
                                           rec_type = correction_type\<rparr>]
                     else corrections,
                     corrected_words @ [prefix @ corrected @ suffix])))"

fun correct_loop ::
  "(string \<Rightarrow> string \<Rightarrow> rat) \<Rightarrow> string list \<Rightarrow> string list
     \<Rightarrow> Correction list \<times> string list \<Rightarrow> (Correction list \<times> string list) option" where
  "correct_loop ratio iter [] st = Some st"
| "correct_loop ratio iter (w # ws) st =
     (case correct_step ratio iter w st of
        None \<Rightarrow> None
      | Some st' \<Rightarrow> correct_loop ratio iter ws st')"

text \<open>\<open>correct\<close>: the corrected text and the corrections made. The arguments \<open>context\<close>
  and \<open>domain\<close> are read nowhere but in the call of \<open>_correct_word\<close>, which does not read
  its own.\<close>

definition correct ::
  "(string \<Rightarrow> string \<Rightarrow> rat) \<Rightarrow> string list \<Rightarrow> string \<Rightarrow> (string \<times> Correction list) option" where
  "correct ratio iter txt =
     (case correct_loop ratio iter (split_ws txt) ([], []) of
        None \<Rightarrow> None
      | Some (corrections, corrected_words) \<Rightarrow>
          Some (fix_spacing (join '' '' corrected_words), corrections))"
section \<open>Properties of the table grid extraction\<close>

lemma length_pairs: "length (pairs ps) = length ps - 1"
  by (simp add: pairs_def)

lemma concat_map_product:
  "concat (map (\<lambda>a. map (F a) bs) as) = map (\<lambda>(a, b). F a b) (List.product as bs)"
  by (induction as) auto

lemma map_prod_product:
  "map (map_prod f g) (List.product as bs) = List.product (map f as) (map g bs)"
  by (induction as) auto

lemma find_cells_index:
  assumes "2 \<le> length (h_positions hl)" "2 \<le> length (v_positions vl)"
  shows "map (\<lambda>c. (row c, col c)) (find_cells hl vl)
         = List.product [0..<length (h_positions hl) - 1] [0..<length (v_positions vl) - 1]"
proof -
  let ?hp = "enumerate 0 (pairs (h_positions hl))" and ?vp = "enumerate 0 (pairs (v_positions vl))"
  let ?mk = "\<lambda>(row_idx, (y1, y2)) (col_idx, (x1, x2)).
               \<lparr> row = row_idx, col = col_idx, row_span = 1, col_span = 1, cell_text = [],
                 cell_bbox = (x1, y1, x2 - x1, y2 - y1), is_header = (row_idx = 0) \<rparr>"
  have "find_cells hl vl = concat (map (\<lambda>a. map (?mk a) ?vp) ?hp)"
    using assms by (simp add: find_cells_def Let_def case_prod_unfold)
  then have "find_cells hl vl = map (\<lambda>(a, b). ?mk a b) (List.product ?hp ?vp)"
    by (simp only: concat_map_product)
  then have "map (\<lambda>c. (row c, col c)) (find_cells hl vl) = map (map_prod fst fst) (List.product ?hp ?vp)"
    by (simp add: case_prod_unfold comp_def)
  then show ?thesis
    by (simp add: map_prod_product length_pairs)
qed

lemma find_cells_shape:
  "c \<in> set (find_cells hl vl) \<Longrightarrow> row_span c = 1 \<and> col_span c = 1 \<and> (is_header c \<longleftrightarrow> row c = 0)"
  by (auto simp: find_cells_def Let_def split: if_splits)


lemma read_cells_index:
  "map (\<lambda>c. (row c, col c)) (read_cells shape ocr cs) = map (\<lambda>c. (row c, col c)) cs"
  by (auto simp: read_cells_def split: option.splits)

lemma read_cells_shape:
  assumes "c \<in> set (read_cells shape ocr cs)"
  shows "\<exists>c' \<in> set cs. row c = row c' \<and> col c = col c' \<and> row_span c = row_span c'
           \<and> col_span c = col_span c' \<and> is_header c = is_header c'"
  using assms by (auto simp: read_cells_def split: option.splits if_splits)

lemma length_h_positions: "length (h_positions hl) = card ((\<lambda>(x, y, w, h). y) ` set hl)"
  by (simp add: h_positions_def length_remdups_card_conv)

lemma length_v_positions: "length (v_positions vl) = card ((\<lambda>(x, y, w, h). x) ` set vl)"
  by (simp add: v_positions_def length_remdups_card_conv)

lemma fold_max_upt:
  assumes "set (x # xs) = {0..<Suc n}"
  shows "fold max xs x = (n::nat)"
proof -
  have "fold max xs x = Max (set (x # xs))"
    by (simp only: Max.set_eq_fold)
  also have "\<dots> = Max {0..<Suc n}"
    by (simp only: assms)
  also have "\<dots> = n"
    by (rule Max_eqI) auto
  finally show ?thesis .
qed

lemma once_in_distinct:
  assumes "distinct (map f xs)" "k \<in> f ` set xs"
  shows "length (filter (\<lambda>x. f x = k) xs) = 1"
  using assms
proof (induction xs)
  case Nil
  then show ?case by simp
next
  case (Cons a xs)
  show ?case
  proof (cases "f a = k")
    case True
    from Cons.prems(1) True have "k \<notin> f ` set xs"
      by auto
    then have "filter (\<lambda>x. f x = k) xs = []"
      by (auto simp: filter_empty_conv)
    with True show ?thesis by simp
  next
    case False
    with Cons show ?thesis by auto
  qed
qed

text \<open>
  Claim C6. With fewer than two distinct horizontal positions or fewer than two distinct
  vertical positions the heuristic extractor returns the empty table list. Otherwise it
  returns one table whose \<open>num_rows\<close> and \<open>num_cols\<close> are the numbers of positions less
  one, in which every pair \<open>(r, c)\<close> with \<open>r < num_rows\<close> and \<open>c < num_cols\<close> is the
  position of exactly one cell, every cell lies in that range and has both spans 1, and a
  cell is marked as header exactly when its row is 0.
\<close>

theorem extract_heuristic_grid:
  fixes horizontal_lines vertical_lines :: "bbox list"
  shows
    "(card ((\<lambda>(x, y, w, h). y) ` set horizontal_lines) < 2
        \<or> card ((\<lambda>(x, y, w, h). x) ` set vertical_lines) < 2
      \<longrightarrow> extract_heuristic shape offset ocr horizontal_lines vertical_lines = [])
   \<and> (2 \<le> card ((\<lambda>(x, y, w, h). y) ` set horizontal_lines)
        \<and> 2 \<le> card ((\<lambda>(x, y, w, h). x) ` set vertical_lines)
      \<longrightarrow> (\<exists>t. extract_heuristic shape offset ocr horizontal_lines vertical_lines = [t]
            \<and> num_rows t = card ((\<lambda>(x, y, w, h). y) ` set horizontal_lines) - 1
            \<and> num_cols t = card ((\<lambda>(x, y, w, h). x) ` set vertical_lines) - 1
            \<and> (\<forall>r < num_rows t. \<forall>c < num_cols t.
                  length (filter (\<lambda>cell. row cell = r \<and> col cell = c) (cells t)) = 1)
            \<and> (\<forall>cell \<in> set (cells t).
                  row cell < num_rows t \<and> col cell < num_cols t
                  \<and> row_span cell = 1 \<and> col_span cell = 1
                  \<and> (is_header cell \<longleftrightarrow> row cell = 0))))"
proof (intro conjI impI)
  assume few: "card ((\<lambda>(x, y, w, h). y) ` set horizontal_lines) < 2
        \<or> card ((\<lambda>(x, y, w, h). x) ` set vertical_lines) < 2"
  then have "find_cells horizontal_lines vertical_lines = []"
    by (auto simp: find_cells_def Let_def length_h_positions length_v_positions)
  then show "extract_heuristic shape offset ocr horizontal_lines vertical_lines = []"
    by (simp add: extract_heuristic_def read_cells_def split: option.splits)
next
  let ?hl = horizontal_lines and ?vl = vertical_lines
  let ?n = "length (h_positions ?hl) - 1" and ?m = "length (v_positions ?vl) - 1"
  let ?rc = "\<lambda>c. (row c, col c)"
  let ?cs = "read_cells shape ocr (find_cells ?hl ?vl)"
  assume "2 \<le> card ((\<lambda>(x, y, w, h). y) ` set ?hl) \<and> 2 \<le> card ((\<lambda>(x, y, w, h). x) ` set ?vl)"
  then have len: "2 \<le> length (h_positions ?hl)" "2 \<le> length (v_positions ?vl)"
    by (simp_all add: length_h_positions length_v_positions)
  show "\<exists>t. extract_heuristic shape offset ocr ?hl ?vl = [t]
            \<and> num_rows t = card ((\<lambda>(x, y, w, h). y) ` set ?hl) - 1
            \<and> num_cols t = card ((\<lambda>(x, y, w, h). x) ` set ?vl) - 1
            \<and> (\<forall>r < num_rows t. \<forall>c < num_cols t.
                  length (filter (\<lambda>cell. row cell = r \<and> col cell = c) (cells t)) = 1)
            \<and> (\<forall>cell \<in> set (cells t).
                  row cell < num_rows t \<and> col cell < num_cols t
                  \<and> row_span cell = 1 \<and> col_span cell = 1
                  \<and> (is_header cell \<longleftrightarrow> row cell = 0))"
  proof -
    have idx: "map ?rc ?cs = List.product [0..<?n] [0..<?m]"
      using len by (simp only: read_cells_index find_cells_index)
    have ne: "List.product [0..<?n] [0..<?m] \<noteq> []"
      using len by (cases "[0..<?n]"; cases "[0..<?m]") auto
    with idx obtain c cs where cs: "?cs = c # cs"
      by (cases ?cs) auto
    let ?t = "hd (extract_heuristic shape offset ocr ?hl ?vl)"
    have lines: "?hl \<noteq> []" "?vl \<noteq> []"
      using len by (auto simp: h_positions_def v_positions_def)
    have ex: "extract_heuristic shape offset ocr ?hl ?vl = [?t]"
      and cells: "cells ?t = ?cs"
      and nr: "num_rows ?t = fold max (map row cs) (row c) + 1"
      and nc: "num_cols ?t = fold max (map col cs) (col c) + 1"
      using lines cs by (simp_all add: extract_heuristic_def Let_def)
    from len obtain n' m' where n': "?n = Suc n'" and m': "?m = Suc m'"
      by (cases ?n; cases ?m) auto
    have "set (map row (c # cs)) = fst ` set (map ?rc ?cs)"
      by (simp add: cs image_image)
    also have "\<dots> = {0..<Suc n'}"
      using len n' by (auto simp: idx)
    finally have "fold max (map row cs) (row c) = n'"
      by (simp only: list.map fold_max_upt)
    with nr n' have rows: "num_rows ?t = ?n" by simp
    have "set (map col (c # cs)) = snd ` set (map ?rc ?cs)"
      by (simp add: cs image_image)
    also have "\<dots> = {0..<Suc m'}"
      using len m' by (auto simp: idx)
    finally have "fold max (map col cs) (col c) = m'"
      by (simp only: list.map fold_max_upt)
    with nc m' have cols: "num_cols ?t = ?m" by simp
    have dist: "distinct (map ?rc ?cs)"
      by (simp add: idx distinct_product)
    have once: "length (filter (\<lambda>cell. row cell = r \<and> col cell = k) ?cs) = 1"
      if "r < ?n" "k < ?m" for r k
    proof -
      have "(r, k) \<in> set (map ?rc ?cs)"
        using that by (simp add: idx)
      then have "(r, k) \<in> ?rc ` set ?cs" by simp
      from once_in_distinct [OF dist this] show ?thesis
        by (simp add: prod_eq_iff)
    qed
    have each: "row cell < ?n \<and> col cell < ?m \<and> row_span cell = 1 \<and> col_span cell = 1
                  \<and> (is_header cell \<longleftrightarrow> row cell = 0)"
      if "cell \<in> set ?cs" for cell
    proof -
      from that have "?rc cell \<in> set (map ?rc ?cs)" by (simp only: set_map image_eqI)
      then have "row cell < ?n \<and> col cell < ?m" by (simp add: idx)
      moreover from read_cells_shape [OF that] find_cells_shape
      have "row_span cell = 1 \<and> col_span cell = 1 \<and> (is_header cell \<longleftrightarrow> row cell = 0)"
        by metis
      ultimately show ?thesis by simp
    qed
    show ?thesis
      using ex rows cols once each
      by (intro exI [of _ ?t]) (simp add: cells length_h_positions length_v_positions)
  qed
qed


text \<open>The theorem at a single horizontal line, and at three horizontal positions
  (one of them detected twice) with two vertical ones.\<close>

theorem extract_heuristic_grid_witness:
  "extract_heuristic (100, 100) (5, 5) None [(0, 0, 100, 1)] [(0, 0, 1, 90), (60, 0, 1, 90)] = []
   \<and> (\<exists>t. extract_heuristic (100, 100) (5, 5) (Some (\<lambda>b. '' 42 ''))
              [(0, 0, 100, 1), (0, 50, 100, 1), (0, 90, 100, 1), (3, 50, 40, 1)]
              [(0, 0, 1, 90), (60, 0, 1, 90)] = [t]
          \<and> num_rows t = 2 \<and> num_cols t = 1
          \<and> (\<forall>r < 2. length (filter (\<lambda>cell. row cell = r \<and> col cell = 0) (cells t)) = 1)
          \<and> (\<forall>cell \<in> set (cells t). row_span cell = 1 \<and> col_span cell = 1
                \<and> (is_header cell \<longleftrightarrow> row cell = 0)))"
proof -
  let ?one = "[(0, 0, 100, 1)] :: bbox list"
  let ?hl = "[(0, 0, 100, 1), (0, 50, 100, 1), (0, 90, 100, 1), (3, 50, 40, 1)] :: bbox list"
  let ?vl = "[(0, 0, 1, 90), (60, 0, 1, 90)] :: bbox list"
  have few: "card ((\<lambda>(x, y, w, h). y) ` set ?one) < 2"
    by simp
  have h: "card ((\<lambda>(x, y, w, h). y) ` set ?hl) = 3"
    by (simp add: card_insert_if)
  have v: "card ((\<lambda>(x, y, w, h). x) ` set ?vl) = 2"
    by simp
  from few extract_heuristic_grid [of ?one ?vl "(100, 100)" "(5, 5)" None]
  have "extract_heuristic (100, 100) (5, 5) None ?one ?vl = []"
    by blast
  moreover from extract_heuristic_grid [of ?hl ?vl "(100, 100)" "(5, 5)" "Some (\<lambda>b. '' 42 '')"]
  have "\<exists>t. extract_heuristic (100, 100) (5, 5) (Some (\<lambda>b. '' 42 '')) ?hl ?vl = [t]
          \<and> num_rows t = 2 \<and> num_cols t = 1
          \<and> (\<forall>r < 2. length (filter (\<lambda>cell. row cell = r \<and> col cell = 0) (cells t)) = 1)
          \<and> (\<forall>cell \<in> set (cells t). row_span cell = 1 \<and> col_span cell = 1
                \<and> (is_header cell \<longleftrightarrow> row cell = 0))"
    unfolding h v by fastforce
  ultimately show ?thesis
    by blast
qed

section \<open>Properties of the reading order\<close>

lemma group_rows_concat:
  "group_rows xs rws cur = (rows', cur') \<Longrightarrow> concat rows' @ cur' = concat rws @ cur @ xs"
  by (induction xs rws cur rule: group_rows.induct) (auto split: if_splits)

lemma concat_reading_rows:
  "concat (reading_rows regions) = sort_key (\<lambda>x. top (snd x)) (enumerate 0 regions)"
  by (auto simp: reading_rows_def Let_def split: prod.splits dest: group_rows_concat)

lemma mset_reading_order:
  "mset (determine_reading_order regions) = mset [0..<length regions]"
proof (cases "regions = []")
  case True
  then show ?thesis by (simp add: determine_reading_order_def)
next
  case False
  have rws: "mset (concat (map (\<lambda>row. map fst (sort_key (\<lambda>x. left (snd x)) row)) rws))
        = mset (map fst (concat rws))" for rws :: "(nat \<times> LayoutRegion) list list"
    by (induction rws) auto
  have "mset (determine_reading_order regions) = mset (map fst (concat (reading_rows regions)))"
    using False by (simp only: determine_reading_order_def rws if_False)
  also have "\<dots> = mset (map fst (enumerate 0 regions))"
    by (simp only: concat_reading_rows mset_map mset_sort)
  also have "\<dots> = mset [0..<length regions]"
    by (simp only: map_fst_enumerate add_0)
  finally show ?thesis .
qed

lemma update_order_snoc:
  "update_order (ps @ [(idx, region_idx)]) regions =
     (case update_order ps regions of
        None \<Rightarrow> None
      | Some rs \<Rightarrow> if region_idx < length rs
                  then Some (rs[region_idx := (rs ! region_idx)\<lparr>order := idx\<rparr>]) else None)"
  by (induction ps regions rule: update_order.induct) auto

lemma update_order_positions:
  assumes "distinct ro" "\<forall>i \<in> set ro. i < length regions"
  shows "\<exists>rs. update_order (enumerate 0 ro) regions = Some rs \<and> length rs = length regions
           \<and> (\<forall>k < length ro. order (rs ! (ro ! k)) = k)
           \<and> (\<forall>i < length regions. region_bbox (rs ! i) = region_bbox (regions ! i)
                 \<and> region_type (rs ! i) = region_type (regions ! i))"
  using assms
proof (induction ro rule: rev_induct)
  case Nil
  then show ?case by simp
next
  case (snoc x ro)
  then obtain rs where rs: "update_order (enumerate 0 ro) regions = Some rs"
      "length rs = length regions" "\<forall>k < length ro. order (rs ! (ro ! k)) = k"
      "\<forall>i < length regions. region_bbox (rs ! i) = region_bbox (regions ! i)
                 \<and> region_type (rs ! i) = region_type (regions ! i)"
    by auto
  have en: "enumerate 0 (ro @ [x]) = enumerate 0 ro @ [(length ro, x)]"
    by (simp add: enumerate_append_eq)
  from snoc.prems have x: "x < length rs" "x \<notin> set ro"
    by (auto simp: rs(2))
  let ?rs = "rs[x := (rs ! x)\<lparr>order := length ro\<rparr>]"
  have "update_order (enumerate 0 (ro @ [x])) regions = Some ?rs"
    by (simp add: en update_order_snoc rs(1) x(1))
  moreover have "\<forall>k < length (ro @ [x]). order (?rs ! ((ro @ [x]) ! k)) = k"
    using rs(3) x by (auto simp: nth_append nth_list_update less_Suc_eq)
  moreover have "\<forall>i < length regions. region_bbox (?rs ! i) = region_bbox (regions ! i)
                 \<and> region_type (?rs ! i) = region_type (regions ! i)"
    using rs(2,4) x by (auto simp: nth_list_update)
  ultimately show ?case
    using rs(2) by simp
qed


lemma order_apart:
  assumes "distinct ro" "\<forall>k < length ro. order (rs ! (ro ! k)) = k" "ro = P @ i # Q @ j # R"
  shows "order (rs ! i) < order (rs ! j)"
proof -
  have "ro ! length P = i" "ro ! (length P + Suc (length Q)) = j"
    by (simp_all add: assms(3) nth_append)
  moreover have "length P < length ro" "length P + Suc (length Q) < length ro"
    by (simp_all add: assms(3))
  ultimately have "order (rs ! i) = length P" "order (rs ! j) = length P + Suc (length Q)"
    using assms(2) by blast+
  then show ?thesis by simp
qed


lemma distinct_reading_order:
  "distinct (determine_reading_order regions)"
  "set (determine_reading_order regions) = {0..<length regions}"
proof -
  show "distinct (determine_reading_order regions)"
    using mset_eq_imp_distinct_iff [OF mset_reading_order [of regions]] by simp
  show "set (determine_reading_order regions) = {0..<length regions}"
    using mset_eq_setD [OF mset_reading_order [of regions]] by simp
qed

text \<open>The rows at the end of the loop, for any state of the loop.\<close>

lemma finished_rows_prefix:
  "(case group_rows zs (pre @ rws) cur of (rs, c) \<Rightarrow> if c \<noteq> [] then rs @ [c] else rs)
   = pre @ (case group_rows zs rws cur of (rs, c) \<Rightarrow> if c \<noteq> [] then rs @ [c] else rs)"
proof (induction zs rws cur rule: group_rows.induct)
  case (1 rws current_row)
  then show ?case by simp
next
  case (2 idx region rest rws current_row)
  then show ?case
    by (simp del: append_assoc add: append_assoc [symmetric])
qed

text \<open>
  A horizontal line that no region crosses cuts the rows: when the regions read so far
  end at or above \<open>c\<close> and the regions still to come start at or below \<open>c\<close>, the rows of
  the whole list are the rows of the first part followed by the rows of the second.
\<close>

lemma group_rows_cut:
  assumes "\<forall>x \<in> set xs. top (snd x) + height (snd x) \<le> c"
    and "cur \<noteq> [] \<longrightarrow> top (snd (last cur)) + height (snd (last cur)) \<le> c"
    and "\<forall>y \<in> set ys. c \<le> top (snd y)"
  shows "(case group_rows (xs @ ys) rws cur of (rs, c) \<Rightarrow> if c \<noteq> [] then rs @ [c] else rs)
   = (case group_rows xs rws cur of (rs, c) \<Rightarrow> if c \<noteq> [] then rs @ [c] else rs)
     @ (case group_rows ys [] [] of (rs, c) \<Rightarrow> if c \<noteq> [] then rs @ [c] else rs)"
  using assms
proof (induction xs rws cur rule: group_rows.induct)
  case (1 rws current_row)
  show ?case
  proof (cases ys)
    case Nil
    then show ?thesis by simp
  next
    case (Cons y ys')
    obtain idx region where y: "y = (idx, region)"
      by (cases y)
    have pre: "(case group_rows ys' (pre @ []) [y] of (rs, c) \<Rightarrow> if c \<noteq> [] then rs @ [c] else rs)
       = pre @ (case group_rows ys' [] [y] of (rs, c) \<Rightarrow> if c \<noteq> [] then rs @ [c] else rs)" for pre
      by (rule finished_rows_prefix)
    show ?thesis
    proof (cases "current_row = []")
      case True
      then show ?thesis
        using pre [of rws] by (simp add: Cons y)
    next
      case False
      with "1.prems"(2) have "top (snd (last current_row)) + height (snd (last current_row)) \<le> c"
        by simp
      moreover from "1.prems"(3) have "c \<le> top region"
        by (simp add: Cons y)
      ultimately have "\<not> y_overlap region (snd (last current_row))"
        by (simp add: y_overlap_def)
      then show ?thesis
        using False pre [of "rws @ [current_row]"] by (simp add: Cons y)
    qed
  qed
next
  case (2 idx region rest rws current_row)
  have last: "top region + height region \<le> c"
    using "2.prems"(1) by simp
  have rest: "\<forall>x \<in> set rest. top (snd x) + height (snd x) \<le> c"
    using "2.prems"(1) by simp
  show ?case
  proof (cases "current_row = []")
    case True
    with "2.IH"(1) [OF True rest _ "2.prems"(3)] last show ?thesis
      by simp
  next
    case False
    show ?thesis
    proof (cases "y_overlap region (snd (last current_row))")
      case True
      with "2.IH"(2) [OF False True rest _ "2.prems"(3)] False last show ?thesis
        by simp
    next
      case no: False
      with "2.IH"(3) [OF False no rest _ "2.prems"(3)] False last show ?thesis
        by simp
    qed
  qed
qed

lemma sorted_cut:
  "sorted (map f xs) \<Longrightarrow> xs = filter (\<lambda>x. f x < c) xs @ filter (\<lambda>x. \<not> f x < c) xs"
proof (induction xs)
  case Nil
  then show ?case by simp
next
  case (Cons x xs)
  show ?case
  proof (cases "f x < c")
    case True
    with Cons show ?thesis by simp
  next
    case False
    with Cons.prems have "\<forall>y \<in> set xs. \<not> f y < c"
      by fastforce
    then have "filter (\<lambda>x. f x < c) xs = []" "filter (\<lambda>x. \<not> f x < c) xs = xs"
      by (simp_all add: filter_empty_conv)
    with False show ?thesis by simp
  qed
qed

lemma set_read_rows:
  "set (concat (map (\<lambda>r. map fst (sort_key (\<lambda>x. left (snd x)) r)) rs)) = fst ` set (concat rs)"
  by (induction rs) auto

lemma finished_rows_concat:
  "concat (case group_rows xs [] [] of (rs, c) \<Rightarrow> if c \<noteq> [] then rs @ [c] else rs) = xs"
  by (auto split: prod.splits dest: group_rows_concat)

text \<open>
  Claim C2, as amended. For every list of regions the order update succeeds, keeps the
  boxes, and the order indices written into the regions are a permutation of
  \<open>0..N-1\<close>. When no region crosses the horizontal line at \<open>c\<close> (each region that starts
  above the line ends at or above it), each region that starts above the line gets a
  smaller order index than each region that starts on or below it.
\<close>

theorem reading_order_permutation_separated:
  "\<exists>rs. detect_order regions = Some rs
      \<and> length rs = length regions
      \<and> (\<forall>i < length regions. region_bbox (rs ! i) = region_bbox (regions ! i))
      \<and> mset (map order rs) = mset [0..<length regions]
      \<and> (\<forall>c i j. (\<forall>r \<in> set regions. top r < c \<longrightarrow> top r + height r \<le> c)
            \<and> i < length regions \<and> j < length regions
            \<and> top (regions ! i) < c \<and> c \<le> top (regions ! j)
          \<longrightarrow> order (rs ! i) < order (rs ! j))"
proof -
  let ?ro = "determine_reading_order regions"
  let ?n = "length regions"
  let ?g = "\<lambda>r. map fst (sort_key (\<lambda>x. left (snd x)) r)"
  let ?S = "sort_key (\<lambda>x. top (snd x)) (enumerate 0 regions)"
  let ?fin = "\<lambda>p. case p of (rs, c) \<Rightarrow> if c \<noteq> [] then rs @ [c] else rs"
  have len: "length ?ro = ?n"
    using mset_eq_length [OF mset_reading_order [of regions]] by simp
  have "\<forall>i \<in> set ?ro. i < ?n"
    by (simp only: distinct_reading_order(2) atLeastLessThan_iff) simp
  from update_order_positions [OF distinct_reading_order(1) this]
  obtain rs where all: "update_order (enumerate 0 ?ro) regions = Some rs \<and> length rs = ?n
           \<and> (\<forall>k < length ?ro. order (rs ! (?ro ! k)) = k)
           \<and> (\<forall>i < ?n. region_bbox (rs ! i) = region_bbox (regions ! i)
                 \<and> region_type (rs ! i) = region_type (regions ! i))" ..
  from all have "update_order (enumerate 0 ?ro) regions = Some rs"
    by (elim conjE)
  then have rs1: "detect_order regions = Some rs"
    by (simp only: detect_order_def)
  from all have rs2: "length rs = ?n"
    by (elim conjE)
  from all have rs3: "\<forall>k < length ?ro. order (rs ! (?ro ! k)) = k"
    by (elim conjE)
  from all have "\<forall>i < ?n. region_bbox (rs ! i) = region_bbox (regions ! i)
                 \<and> region_type (rs ! i) = region_type (regions ! i)"
    by (elim conjE)
  then have rs4: "\<forall>i < ?n. region_bbox (rs ! i) = region_bbox (regions ! i)"
    by simp
  have "map order rs = map (\<lambda>i. order (rs ! i)) [0..<?n]"
    using rs2 by (intro nth_equalityI) simp_all
  then have "mset (map order rs) = image_mset (\<lambda>i. order (rs ! i)) (mset ?ro)"
    by (simp only: mset_map mset_reading_order)
  also have "\<dots> = mset (map (\<lambda>i. order (rs ! i)) ?ro)"
    by simp
  also have "map (\<lambda>i. order (rs ! i)) ?ro = [0..<?n]"
    using rs3 len by (intro nth_equalityI) simp_all
  finally have perm: "mset (map order rs) = mset [0..<?n]" .
  have apart: "order (rs ! i) < order (rs ! j)"
    if line: "\<forall>r \<in> set regions. top r < c \<longrightarrow> top r + height r \<le> c"
      and ij: "i < ?n" "j < ?n" and above: "top (regions ! i) < c" and below: "c \<le> top (regions ! j)"
    for c i j
  proof -
    let ?xs = "filter (\<lambda>x. top (snd x) < c) ?S" and ?ys = "filter (\<lambda>x. \<not> top (snd x) < c) ?S"
    have ne: "regions \<noteq> []"
      using ij(1) by auto
    have S: "?S = ?xs @ ?ys"
      by (rule sorted_cut) (simp only: sorted_sort_key)
    have xs: "\<forall>x \<in> set ?xs. top (snd x) + height (snd x) \<le> c"
    proof
      fix x
      assume "x \<in> set ?xs"
      then have m: "x \<in> set (enumerate 0 regions)" and t: "top (snd x) < c"
        by simp_all
      from m have "fst x < ?n" "snd x = regions ! fst x"
        by (simp_all add: in_set_enumerate_eq)
      then have "snd x \<in> set regions"
        by simp
      with line t show "top (snd x) + height (snd x) \<le> c"
        by blast
    qed
    have ys: "\<forall>y \<in> set ?ys. c \<le> top (snd y)"
      by auto
    have "reading_rows regions = ?fin (group_rows (?xs @ ?ys) [] [])"
      unfolding reading_rows_def Let_def S [symmetric] ..
    also have "\<dots> = ?fin (group_rows ?xs [] []) @ ?fin (group_rows ?ys [] [])"
      using group_rows_cut [OF xs _ ys, of "[]" "[]"] by simp
    finally have ro: "?ro = concat (map ?g (?fin (group_rows ?xs [] [])))
        @ concat (map ?g (?fin (group_rows ?ys [] [])))"
      using ne by (simp add: determine_reading_order_def)
    have "(i, regions ! i) \<in> set ?xs"
      using ij(1) above by (simp add: in_set_enumerate_eq)
    then have "i \<in> fst ` set ?xs"
      by force
    then have "i \<in> set (concat (map ?g (?fin (group_rows ?xs [] []))))"
      by (simp only: set_read_rows finished_rows_concat)
    from split_list [OF this]
    obtain P Q where P: "concat (map ?g (?fin (group_rows ?xs [] []))) = P @ i # Q"
      by (elim exE)
    have "(j, regions ! j) \<in> set ?ys"
      using ij(2) below by (simp add: in_set_enumerate_eq)
    then have "j \<in> fst ` set ?ys"
      by force
    then have "j \<in> set (concat (map ?g (?fin (group_rows ?ys [] []))))"
      by (simp only: set_read_rows finished_rows_concat)
    from split_list [OF this]
    obtain Q' R where Q: "concat (map ?g (?fin (group_rows ?ys [] []))) = Q' @ j # R"
      by (elim exE)
    have "?ro = P @ i # (Q @ Q') @ j # R"
      by (simp only: ro P Q) simp
    from order_apart [OF distinct_reading_order(1) rs3 this] show ?thesis .
  qed
  show ?thesis
  proof (intro exI [of _ rs] conjI allI impI)
    show "detect_order regions = Some rs" by (rule rs1)
    show "length rs = ?n" by (rule rs2)
    show "region_bbox (rs ! i) = region_bbox (regions ! i)" if "i < ?n" for i
      using rs4 that by blast
    show "mset (map order rs) = mset [0..<?n]" by (rule perm)
    show "order (rs ! i) < order (rs ! j)"
      if "(\<forall>r \<in> set regions. top r < c \<longrightarrow> top r + height r \<le> c)
            \<and> i < length regions \<and> j < length regions
            \<and> top (regions ! i) < c \<and> c \<le> top (regions ! j)" for c i j
      using apart [of c i j] that by blast
  qed
qed

text \<open>
  The theorem at two regions whose vertical extents \<open>[0, 10)\<close> and \<open>[10, 20)\<close> touch at
  the line \<open>c = 10\<close>: the upper region is read first, although it lies to the right.
\<close>

theorem reading_order_permutation_separated_witness:
  "\<exists>rs. detect_order
          [\<lparr>region_type = PARAGRAPH, region_bbox = (50, 0, 10, 10), order = 0\<rparr>,
           \<lparr>region_type = TITLE, region_bbox = (0, 10, 10, 10), order = 0\<rparr>] = Some rs
        \<and> mset (map order rs) = mset [0, 1]
        \<and> order (rs ! 0) < order (rs ! 1)"
proof -
  let ?A = "\<lparr>region_type = PARAGRAPH, region_bbox = (50, 0, 10, 10), order = 0\<rparr>"
  let ?B = "\<lparr>region_type = TITLE, region_bbox = (0, 10, 10, 10), order = 0\<rparr>"
  have line: "\<forall>r \<in> set [?A, ?B]. top r < 10 \<longrightarrow> top r + height r \<le> 10"
    by (simp add: top_def height_def)
  have tops: "top ([?A, ?B] ! 0) < 10" "10 \<le> top ([?A, ?B] ! 1)"
    by (simp_all add: top_def)
  from reading_order_permutation_separated [of "[?A, ?B]"]
  obtain rs where rs: "detect_order [?A, ?B] = Some rs"
      "mset (map order rs) = mset [0..<length [?A, ?B]]"
      "\<forall>c i j. (\<forall>r \<in> set [?A, ?B]. top r < c \<longrightarrow> top r + height r \<le> c)
            \<and> i < length [?A, ?B] \<and> j < length [?A, ?B]
            \<and> top ([?A, ?B] ! i) < c \<and> c \<le> top ([?A, ?B] ! j)
          \<longrightarrow> order (rs ! i) < order (rs ! j)"
    by (elim exE conjE)
  from rs(3) have "(\<forall>r \<in> set [?A, ?B]. top r < 10 \<longrightarrow> top r + height r \<le> 10)
            \<and> 0 < length [?A, ?B] \<and> 1 < length [?A, ?B]
            \<and> top ([?A, ?B] ! 0) < 10 \<and> 10 \<le> top ([?A, ?B] ! 1)
          \<longrightarrow> order (rs ! 0) < order (rs ! 1)"
    by blast
  with line tops have less: "order (rs ! 0) < order (rs ! 1)"
    by simp
  have upt: "[0..<length [?A, ?B]] = [0, 1]"
    by code_simp
  show ?thesis
  proof (intro exI [of _ rs] conjI)
    show "detect_order [?A, ?B] = Some rs" by (rule rs(1))
    show "mset (map order rs) = mset [0, 1]" using rs(2) unfolding upt .
    show "order (rs ! 0) < order (rs ! 1)" by (rule less)
  qed
qed

text \<open>
  Claim C2 as stated fails: the vertical extents of regions 0 and 2 below, \<open>[0, 10)\<close>
  and \<open>[12, 17)\<close>, do not overlap and region 0 is the higher one, but region 1 spans
  \<open>[5, 25)\<close> and overlaps both, so the loop, which compares a region only with the one
  added last, puts all three in one row. Inside the row the order is by x, and region 0,
  the rightmost, comes last: the order indices are 2, 0, 1.
\<close>

theorem reading_order_chained_row_counterexample:
  "\<not> y_overlap \<lparr>region_type = PARAGRAPH, region_bbox = (50, 0, 10, 10), order = 0\<rparr>
               \<lparr>region_type = PARAGRAPH, region_bbox = (10, 12, 10, 5), order = 0\<rparr>
   \<and> top \<lparr>region_type = PARAGRAPH, region_bbox = (50, 0, 10, 10), order = 0\<rparr>
       < top \<lparr>region_type = PARAGRAPH, region_bbox = (10, 12, 10, 5), order = 0\<rparr>
   \<and> map_option (map order) (detect_order
        [\<lparr>region_type = PARAGRAPH, region_bbox = (50, 0, 10, 10), order = 0\<rparr>,
         \<lparr>region_type = FIGURE, region_bbox = (0, 5, 10, 20), order = 0\<rparr>,
         \<lparr>region_type = PARAGRAPH, region_bbox = (10, 12, 10, 5), order = 0\<rparr>]) = Some [2, 0, 1]"
  by code_simp

section \<open>Properties of the table alignment\<close>

lemma votes_Cons:
  "votes (v # vs) t = (if strip v \<noteq> [] \<and> classify (strip v) = t then Suc (votes vs t) else votes vs t)"
  by (simp add: votes_def)

lemma count_value_five:
  "count_value v [(Currency, a), (Percentage, b), (Number, c), (Date, d), (Text, e)] =
     [(Currency, a + votes [v] Currency), (Percentage, b + votes [v] Percentage),
      (Number, c + votes [v] Number), (Date, d + votes [v] Date), (Text, e + votes [v] Text)]"
  by (cases "classify (strip v)") (simp_all add: count_value_def bump_def votes_def)

lemma fold_count_value:
  "fold count_value vs [(Currency, a), (Percentage, b), (Number, c), (Date, d), (Text, e)] =
     [(Currency, a + votes vs Currency), (Percentage, b + votes vs Percentage),
      (Number, c + votes vs Number), (Date, d + votes vs Date), (Text, e + votes vs Text)]"
proof (induction vs arbitrary: a b c d e)
  case Nil
  then show ?case by (simp add: votes_def)
next
  case (Cons v vs)
  have "votes (v # vs) t = votes [v] t + votes vs t" for t
    by (simp add: votes_def)
  then show ?case
    by (simp only: fold_simps count_value_five Cons.IH add.assoc)
qed

lemma type_counts_votes:
  "fold count_value vs type_counts0 =
     [(Currency, votes vs Currency), (Percentage, votes vs Percentage),
      (Number, votes vs Number), (Date, votes vs Date), (Text, votes vs Text)]"
  using fold_count_value [of vs 0 0 0 0 0] by (simp add: type_counts0_def)

lemma max_key_five:
  "let w = max_key [(Percentage, b), (Number, c), (Date, d), (Text, e)] (Currency, a);
       n = (\<lambda>t. case t of Currency \<Rightarrow> a | Percentage \<Rightarrow> b | Number \<Rightarrow> c | Date \<Rightarrow> d | Text \<Rightarrow> e)
   in (\<forall>t. n t \<le> n w) \<and> (\<forall>t. n t = n w \<longrightarrow> priority w \<le> priority t)"
  by (auto simp: Let_def split: ColType.splits)

lemma no_votes: "(\<forall>t. votes vs t = 0) \<longleftrightarrow> (\<forall>v \<in> set vs. strip v = [])"
proof
  assume "\<forall>t. votes vs t = 0"
  then have "\<forall>v \<in> set vs. \<not> (strip v \<noteq> [] \<and> classify (strip v) = classify (strip v))"
    by (auto simp: votes_def filter_empty_conv)
  then show "\<forall>v \<in> set vs. strip v = []" by simp
next
  assume "\<forall>v \<in> set vs. strip v = []"
  then show "\<forall>t. votes vs t = 0"
    by (simp add: votes_def filter_empty_conv)
qed

text \<open>
  Claim C1, as amended. The type inferred for a list of cell values has the most votes.
  When some cell is not empty, it comes first, among the types with that many votes, in
  the order currency, percentage, number, date, text; when every cell is empty, it is
  text. Each entry of \<open>detect_column_types\<close> is \<open>detect_type\<close> of the values of its column.
\<close>

theorem detect_type_plurality:
  "(\<forall>t. votes vs t \<le> votes vs (detect_type vs))
   \<and> ((\<exists>v \<in> set vs. strip v \<noteq> []) \<longrightarrow>
        (\<forall>t. votes vs t = votes vs (detect_type vs) \<longrightarrow> priority (detect_type vs) \<le> priority t))
   \<and> ((\<forall>v \<in> set vs. strip v = []) \<longrightarrow> detect_type vs = Text)
   \<and> (\<forall>r rs j. j < length r \<longrightarrow>
         detect_column_types (r # rs) ! j = detect_type (column j (r # rs)))"
proof -
  let ?a = "votes vs Currency" and ?b = "votes vs Percentage" and ?c = "votes vs Number"
    and ?d = "votes vs Date" and ?e = "votes vs Text"
  let ?w = "max_key [(Percentage, ?b), (Number, ?c), (Date, ?d), (Text, ?e)] (Currency, ?a)"
  have n: "(case t of Currency \<Rightarrow> ?a | Percentage \<Rightarrow> ?b | Number \<Rightarrow> ?c | Date \<Rightarrow> ?d | Text \<Rightarrow> ?e)
           = votes vs t" for t
    by (cases t) simp_all
  have w: "(\<forall>t. votes vs t \<le> votes vs ?w) \<and> (\<forall>t. votes vs t = votes vs ?w \<longrightarrow> priority ?w \<le> priority t)"
    using max_key_five [of ?b ?c ?d ?e ?a] unfolding Let_def n .
  have zero: "sum_list (map snd (fold count_value vs type_counts0)) = 0 \<longleftrightarrow> (\<forall>v \<in> set vs. strip v = [])"
  proof -
    have "sum_list (map snd (fold count_value vs type_counts0)) = 0 \<longleftrightarrow> (\<forall>t. votes vs t = 0)"
    proof
      assume "sum_list (map snd (fold count_value vs type_counts0)) = 0"
      then have "?a = 0 \<and> ?b = 0 \<and> ?c = 0 \<and> ?d = 0 \<and> ?e = 0"
        by (simp add: type_counts_votes)
      then show "\<forall>t. votes vs t = 0"
        by (metis ColType.exhaust)
    next
      assume "\<forall>t. votes vs t = 0"
      then show "sum_list (map snd (fold count_value vs type_counts0)) = 0"
        by (simp add: type_counts_votes)
    qed
    then show ?thesis by (simp only: no_votes)
  qed
  have det: "detect_type vs = (if \<forall>v \<in> set vs. strip v = [] then Text else ?w)"
    unfolding detect_type_def Let_def zero by (simp add: type_counts_votes)
  have 1: "\<forall>t. votes vs t \<le> votes vs (detect_type vs)"
  proof (cases "\<forall>v \<in> set vs. strip v = []")
    case True
    then have "\<forall>t. votes vs t = 0" by (simp only: no_votes)
    then show ?thesis by simp
  next
    case False
    then have eq: "detect_type vs = ?w"
      by (simp only: det if_False)
    show ?thesis
      unfolding eq using w by blast
  qed
  have 2: "(\<exists>v \<in> set vs. strip v \<noteq> []) \<longrightarrow>
        (\<forall>t. votes vs t = votes vs (detect_type vs) \<longrightarrow> priority (detect_type vs) \<le> priority t)"
  proof (intro impI)
    assume "\<exists>v \<in> set vs. strip v \<noteq> []"
    then have eq: "detect_type vs = ?w"
      by (simp only: det) auto
    show "\<forall>t. votes vs t = votes vs (detect_type vs) \<longrightarrow> priority (detect_type vs) \<le> priority t"
      unfolding eq using w by blast
  qed
  have 3: "(\<forall>v \<in> set vs. strip v = []) \<longrightarrow> detect_type vs = Text"
    by (simp add: det)
  have 4: "\<forall>r rs j. j < length r \<longrightarrow>
         detect_column_types (r # rs) ! j = detect_type (column j (r # rs))"
    by (simp add: detect_column_types_def column_def)
  from 1 2 3 4 show ?thesis by blast
qed

text \<open>The theorem at a column with one date and one number, at a column of empty
  cells, and at the second column of a ragged pair of rows.\<close>

theorem detect_type_plurality_witness:
  "votes [''2024-01-15'', ''+5''] Date \<le> votes [''2024-01-15'', ''+5''] (detect_type [''2024-01-15'', ''+5''])
   \<and> priority (detect_type [''2024-01-15'', ''+5'']) \<le> priority Date
   \<and> detect_type ['' '', ''''] = Text
   \<and> detect_column_types [[''$5'', ''x''], [''$6'']] ! 1 = detect_type (column 1 [[''$5'', ''x''], [''$6'']])"
proof -
  let ?vs = "[''2024-01-15'', ''+5'']"
  have some: "\<exists>v \<in> set ?vs. strip v \<noteq> []"
    by code_simp
  have tie: "votes ?vs Date = votes ?vs (detect_type ?vs)"
    by code_simp
  have none: "\<forall>v \<in> set ['' '', '''']. strip v = []"
    by code_simp
  have len: "1 < length [''$5'', ''x'']"
    by simp
  from detect_type_plurality [of ?vs] some tie
  have "votes ?vs Date \<le> votes ?vs (detect_type ?vs)"
    and "priority (detect_type ?vs) \<le> priority Date"
    by blast+
  moreover from detect_type_plurality [of "['' '', '''']"] none
  have "detect_type ['' '', ''''] = Text"
    by blast
  moreover from detect_type_plurality [of ?vs] len
  have "detect_column_types [[''$5'', ''x''], [''$6'']] ! 1 = detect_type (column 1 [[''$5'', ''x''], [''$6'']])"
    by blast
  ultimately show ?thesis
    by blast
qed

text \<open>
  Claim C1 as stated fails on its own example: a column with one cell classified as a
  date, one classified as a number and no other cell is typed number, not date. The
  dictionary \<open>type_counts\<close> lists number before date, and \<open>max\<close> keeps the first of the
  keys with the largest count.
\<close>

theorem detect_type_tie_counterexample:
  "classify ''2024-01-15'' = Date \<and> classify ''+5'' = Number
   \<and> votes [''2024-01-15'', ''+5''] Date = 1 \<and> votes [''2024-01-15'', ''+5''] Number = 1
   \<and> votes [''2024-01-15'', ''+5''] Currency = 0 \<and> votes [''2024-01-15'', ''+5''] Percentage = 0
   \<and> votes [''2024-01-15'', ''+5''] Text = 0
   \<and> detect_type [''2024-01-15'', ''+5''] = Number"
  by code_simp

text \<open>
  Claim C4. The column \<open>$1,200.00\<close>, \<open>$45.50\<close>, \<open>$0.00\<close> is typed currency, and its cells
  are parsed to the floats 1200, 45.5 and 0 without a validation error, by
  \<open>parse_and_validate\<close> and by \<open>align\<close> with and without a header row. (The three numbers
  are binary64 values, so the floats are these numbers exactly.)
\<close>

theorem currency_column_example:
  "detect_type [''$1,200.00'', ''$45.50'', ''$0.00''] = Currency
   \<and> parse_and_validate [[''$1,200.00''], [''$45.50''], [''$0.00'']] [Currency]
       = ([[PFloat (Fin 1200)], [PFloat (Fin (91 / 2))], [PFloat (Fin 0)]], [])
   \<and> align [[''$1,200.00''], [''$45.50''], [''$0.00'']] False
       = \<lparr>headers = [''Column 1''],
          rows = [[PFloat (Fin 1200)], [PFloat (Fin (91 / 2))], [PFloat (Fin 0)]],
          column_types = [Currency], validation_errors = [], normalized = True\<rparr>
   \<and> align [[''Amount''], [''$1,200.00''], [''$45.50''], [''$0.00'']] True
       = \<lparr>headers = [''Amount''],
          rows = [[PFloat (Fin 1200)], [PFloat (Fin (91 / 2))], [PFloat (Fin 0)]],
          column_types = [Currency], validation_errors = [], normalized = True\<rparr>"
  by code_simp

lemma max_cols_Max: "fold max (map length rs) (length r) = Max (length ` set (r # rs))"
proof -
  have "fold max (map length rs) (length r) = Max (set (length r # map length rs))"
    by (simp only: Max.set_eq_fold)
  then show ?thesis by simp
qed

lemma normalize_columns_nth:
  assumes "i < length matrix"
  shows "normalize_columns matrix ! i
         = matrix ! i @ replicate (Max (length ` set matrix) - length (matrix ! i)) []"
proof -
  let ?M = "Max (length ` set matrix)"
  from assms obtain r rs where m: "matrix = r # rs"
    by (cases matrix) auto
  have le: "length (matrix ! i) \<le> ?M"
    using assms by (intro Max_ge) auto
  have "normalize_columns matrix
        = map (\<lambda>xs. if length xs < ?M then xs @ replicate (?M - length xs) [] else xs) matrix"
    unfolding m normalize_columns_def list.case Let_def max_cols_Max ..
  then have "normalize_columns matrix ! i
        = (if length (matrix ! i) < ?M then matrix ! i @ replicate (?M - length (matrix ! i)) []
           else matrix ! i)"
    using assms by (simp only: nth_map)
  also have "\<dots> = matrix ! i @ replicate (?M - length (matrix ! i)) []"
    using le by (cases "length (matrix ! i) < ?M") simp_all
  finally show ?thesis .
qed

lemma length_normalize_columns: "length (normalize_columns matrix) = length matrix"
  by (simp add: normalize_columns_def Let_def split: list.splits)

lemma normalize_columns_width:
  assumes "xs \<in> set (normalize_columns matrix)"
  shows "length xs = Max (length ` set matrix)"
proof -
  from assms obtain i where i: "i < length matrix" "xs = normalize_columns matrix ! i"
    by (auto simp: in_set_conv_nth length_normalize_columns)
  have "length (matrix ! i) \<le> Max (length ` set matrix)"
    using i(1) by (intro Max_ge) auto
  then show ?thesis
    by (simp add: i normalize_columns_nth)
qed

lemma length_clean_loop: "length (clean_loop xs cleaned seen) = length cleaned + length xs"
  by (induction xs cleaned seen rule: clean_loop.induct) (simp_all add: Let_def)

lemma length_clean_headers: "length (clean_headers hs) = length hs"
  by (simp add: clean_headers_def length_clean_loop)

lemma align_fields:
  assumes "matrix \<noteq> []"
  shows "headers (align matrix h) =
           clean_headers (if h then map strip (hd (normalize_columns matrix))
              else map (\<lambda>i. ''Column '' @ dec (i + 1)) [0..<length (hd (normalize_columns matrix))])"
    and "column_types (align matrix h) = detect_column_types (data_rows matrix h)"
    and "rows (align matrix h)
           = fst (parse_and_validate (data_rows matrix h) (detect_column_types (data_rows matrix h)))"
    and "validation_errors (align matrix h)
           = snd (parse_and_validate (data_rows matrix h) (detect_column_types (data_rows matrix h)))"
proof -
  have ne: "normalize_columns matrix \<noteq> []"
    using assms length_normalize_columns [of matrix] by (metis length_0_conv)
  show "headers (align matrix h) =
           clean_headers (if h then map strip (hd (normalize_columns matrix))
              else map (\<lambda>i. ''Column '' @ dec (i + 1)) [0..<length (hd (normalize_columns matrix))])"
    using assms ne by (simp add: align_def Let_def data_rows_def split: prod.splits)
  show "column_types (align matrix h) = detect_column_types (data_rows matrix h)"
    using assms ne by (simp add: align_def Let_def data_rows_def split: prod.splits)
  show "rows (align matrix h)
           = fst (parse_and_validate (data_rows matrix h) (detect_column_types (data_rows matrix h)))"
    using assms ne by (simp add: align_def Let_def data_rows_def split: prod.splits)
  show "validation_errors (align matrix h)
           = snd (parse_and_validate (data_rows matrix h) (detect_column_types (data_rows matrix h)))"
    using assms ne by (simp add: align_def Let_def data_rows_def split: prod.splits)
qed

lemma data_rows_subset: "set (data_rows matrix h) \<subseteq> set (normalize_columns matrix)"
  by (cases "normalize_columns matrix") (auto simp: data_rows_def)

lemma parsed_rows_eq:
  "fst (parse_and_validate rs cts)
     = map (\<lambda>(i, row). map (\<lambda>(j, v). fst (parse_cell cts i j v)) (enumerate 0 row)) (enumerate 0 rs)"
  by (simp add: parse_and_validate_def Let_def case_prod_unfold comp_def)

lemma parsed_rows_length: "length (fst (parse_and_validate rs cts)) = length rs"
  by (simp add: parsed_rows_eq)

lemma parsed_rows_nth:
  assumes "i < length rs"
  shows "fst (parse_and_validate rs cts) ! i = map (\<lambda>(j, v). fst (parse_cell cts i j v)) (enumerate 0 (rs ! i))"
  using assms by (simp add: parsed_rows_eq nth_enumerate_eq)


text \<open>
  Claim C7. For a matrix that is not empty, \<open>normalize_columns\<close> keeps the number of rows,
  extends each row by empty strings up to the length of the longest row, so that every
  row has that length; the aligned table has that many headers, and each of its rows has
  as many entries as there are headers.
\<close>

theorem align_row_widths:
  assumes "matrix \<noteq> []"
  shows "length (normalize_columns matrix) = length matrix
    \<and> (\<forall>i < length matrix. normalize_columns matrix ! i
           = matrix ! i @ replicate (Max (length ` set matrix) - length (matrix ! i)) [])
    \<and> (\<forall>xs \<in> set (normalize_columns matrix). length xs = Max (length ` set matrix))
    \<and> length (headers (align matrix h)) = Max (length ` set matrix)
    \<and> (\<forall>xs \<in> set (rows (align matrix h)). length xs = length (headers (align matrix h)))"
proof -
  let ?M = "Max (length ` set matrix)" and ?d = "data_rows matrix h"
  have ne: "normalize_columns matrix \<noteq> []"
    using assms length_normalize_columns [of matrix] by (metis length_0_conv)
  then have "hd (normalize_columns matrix) \<in> set (normalize_columns matrix)"
    by simp
  then have "length (hd (normalize_columns matrix)) = ?M"
    by (rule normalize_columns_width)
  then have hs: "length (headers (align matrix h)) = ?M"
    by (simp add: align_fields(1) [OF assms] length_clean_headers)
  have "length xs = ?M" if "xs \<in> set (rows (align matrix h))" for xs
  proof -
    from that obtain i where i: "i < length ?d"
        "xs = fst (parse_and_validate ?d (detect_column_types ?d)) ! i"
      by (auto simp: align_fields(3) [OF assms] in_set_conv_nth parsed_rows_length)
    then have "length xs = length (?d ! i)"
      by (simp add: parsed_rows_nth)
    moreover have "?d ! i \<in> set (normalize_columns matrix)"
      using i(1) data_rows_subset [of matrix h] by (meson nth_mem subsetD)
    ultimately show ?thesis
      by (simp add: normalize_columns_width)
  qed
  with hs show ?thesis
    by (simp add: length_normalize_columns normalize_columns_nth normalize_columns_width)
qed

text \<open>The theorem at a matrix with rows of lengths 3, 5 and 4.\<close>

theorem align_row_widths_witness:
  "map length (normalize_columns
      [[''a'', ''b'', ''c''], [''1'', ''2'', ''3'', ''4'', ''5''], [''x'', ''y'', ''z'', ''w'']]) = [5, 5, 5]
   \<and> normalize_columns
      [[''a'', ''b'', ''c''], [''1'', ''2'', ''3'', ''4'', ''5''], [''x'', ''y'', ''z'', ''w'']] ! 0
      = [''a'', ''b'', ''c'', [], []]
   \<and> length (headers (align
      [[''a'', ''b'', ''c''], [''1'', ''2'', ''3'', ''4'', ''5''], [''x'', ''y'', ''z'', ''w'']] True)) = 5
   \<and> map length (rows (align
      [[''a'', ''b'', ''c''], [''1'', ''2'', ''3'', ''4'', ''5''], [''x'', ''y'', ''z'', ''w'']] True)) = [5, 5]"
proof -
  let ?m = "[[''a'', ''b'', ''c''], [''1'', ''2'', ''3'', ''4'', ''5''], [''x'', ''y'', ''z'', ''w'']]"
  have ne: "?m \<noteq> []"
    by simp
  have M: "Max (length ` set ?m) = 5"
    by simp
  from align_row_widths [OF ne, of True]
  have "length (headers (align ?m True)) = Max (length ` set ?m)"
    by (elim conjE)
  then have "length (headers (align ?m True)) = 5"
    by (simp only: M)
  moreover have "map length (normalize_columns ?m) = [5, 5, 5]"
    by code_simp
  moreover have "normalize_columns ?m ! 0 = [''a'', ''b'', ''c'', [], []]"
    by code_simp
  moreover have "map length (rows (align ?m True)) = [5, 5]"
    by code_simp
  ultimately show ?thesis
    by (intro conjI)
qed

lemma parse_cell_cases:
  "(\<exists>v. parse_value (strip s) (if j < length cts then cts ! j else Text) = Inr v
        \<and> parse_cell cts i j s = (v, []))
   \<or> (\<exists>e. parse_value (strip s) (if j < length cts then cts ! j else Text) = Inl e
        \<and> parse_cell cts i j s =
            (PStr (strip s),
             [\<lparr>err_row = i, err_col = j, err_value = strip s,
                expected_type = (if j < length cts then cts ! j else Text), err_error = e\<rparr>]))"
  by (cases "parse_value (strip s) (if j < length cts then cts ! j else Text)")
     (simp_all add: parse_cell_def Let_def)

lemma filter_cell_errors:
  "filter (at_cell i' j') (snd (parse_cell cts i j s))
     = (if i = i' \<and> j = j' then snd (parse_cell cts i j s) else [])"
  using parse_cell_cases [of s j cts i] by (auto simp: at_cell_def)

lemma filter_row_errors_same:
  "filter (at_cell i j') (concat (map (\<lambda>p. snd (parse_cell cts i (fst p) (snd p))) (enumerate n xs)))
     = (if n \<le> j' \<and> j' < n + length xs then snd (parse_cell cts i j' (xs ! (j' - n))) else [])"
proof (induction xs arbitrary: n)
  case Nil
  then show ?case by auto
next
  case (Cons x xs)
  show ?case
  proof (cases "n = j'")
    case True
    then show ?thesis
      by (simp add: Cons.IH filter_cell_errors)
  next
    case False
    then show ?thesis
      by (auto simp: Cons.IH filter_cell_errors nth_Cons' Suc_diff_le)
  qed
qed

lemma filter_row_errors_other:
  "i \<noteq> i' \<Longrightarrow>
   filter (at_cell i' j') (concat (map (\<lambda>p. snd (parse_cell cts i (fst p) (snd p))) (enumerate n xs))) = []"
  by (induction xs arbitrary: n) (simp_all add: filter_cell_errors)

lemma filter_row_errors:
  "filter (at_cell i' j') (concat (map (\<lambda>p. snd (parse_cell cts i (fst p) (snd p))) (enumerate n xs)))
     = (if i = i' \<and> n \<le> j' \<and> j' < n + length xs then snd (parse_cell cts i j' (xs ! (j' - n))) else [])"
  using filter_row_errors_same [of i j' cts n xs] filter_row_errors_other [of i i' j' cts n xs]
  by (cases "i = i'") simp_all

lemma filter_all_errors:
  "filter (at_cell i' j')
     (concat (map (\<lambda>q. concat (map (\<lambda>p. snd (parse_cell cts (fst q) (fst p) (snd p)))
                                   (enumerate 0 (snd q)))) (enumerate n rs)))
     = (if n \<le> i' \<and> i' < n + length rs \<and> j' < length (rs ! (i' - n))
        then snd (parse_cell cts i' j' (rs ! (i' - n) ! j')) else [])"
proof (induction rs arbitrary: n)
  case Nil
  then show ?case by auto
next
  case (Cons r rs)
  show ?case
  proof (cases "n = i'")
    case True
    then show ?thesis
      by (simp add: Cons.IH filter_row_errors)
  next
    case False
    then show ?thesis
      by (auto simp: Cons.IH filter_row_errors nth_Cons' Suc_diff_le)
  qed
qed

lemma errors_eq:
  "snd (parse_and_validate rs cts)
     = concat (map (\<lambda>q. concat (map (\<lambda>p. snd (parse_cell cts (fst q) (fst p) (snd p)))
                                     (enumerate 0 (snd q)))) (enumerate 0 rs))"
  by (simp add: parse_and_validate_def Let_def case_prod_unfold comp_def)

lemma errors_at_cell:
  assumes "i < length rs" "j < length (rs ! i)"
  shows "filter (at_cell i j) (snd (parse_and_validate rs cts)) = snd (parse_cell cts i j (rs ! i ! j))"
  using assms by (simp add: errors_eq filter_all_errors)

lemma parsed_at_cell:
  assumes "i < length rs" "j < length (rs ! i)"
  shows "fst (parse_and_validate rs cts) ! i ! j = fst (parse_cell cts i j (rs ! i ! j))"
  using assms by (simp add: parsed_rows_nth nth_enumerate_eq)

lemma errors_in_range:
  assumes "e \<in> set (snd (parse_and_validate rs cts))"
  shows "err_row e < length rs \<and> err_col e < length (rs ! err_row e)"
proof -
  have "e \<in> set (filter (at_cell (err_row e) (err_col e)) (snd (parse_and_validate rs cts)))"
    using assms by (simp add: at_cell_def)
  then have "filter (at_cell (err_row e) (err_col e)) (snd (parse_and_validate rs cts)) \<noteq> []"
    by (metis empty_iff empty_set)
  then show ?thesis
    by (simp add: errors_eq filter_all_errors split: if_splits)
qed


lemma align_fields_all:
  "column_types (align matrix h) = detect_column_types (data_rows matrix h)"
  "rows (align matrix h)
     = fst (parse_and_validate (data_rows matrix h) (detect_column_types (data_rows matrix h)))"
  "validation_errors (align matrix h)
     = snd (parse_and_validate (data_rows matrix h) (detect_column_types (data_rows matrix h)))"
proof -
  have empty: "data_rows [] h = []" "detect_column_types [] = []"
      "parse_and_validate [] [] = ([], [])"
    by (simp_all add: data_rows_def normalize_columns_def detect_column_types_def
        parse_and_validate_def)
  show "column_types (align matrix h) = detect_column_types (data_rows matrix h)"
    by (cases "matrix = []") (simp_all add: align_fields empty, simp add: align_def)
  show "rows (align matrix h)
     = fst (parse_and_validate (data_rows matrix h) (detect_column_types (data_rows matrix h)))"
    by (cases "matrix = []") (simp_all add: align_fields empty, simp add: align_def)
  show "validation_errors (align matrix h)
     = snd (parse_and_validate (data_rows matrix h) (detect_column_types (data_rows matrix h)))"
    by (cases "matrix = []") (simp_all add: align_fields empty, simp add: align_def)
qed

lemma data_rows_width:
  assumes "i < length (data_rows matrix h)"
  shows "length (data_rows matrix h ! i) = length (detect_column_types (data_rows matrix h))"
proof -
  let ?d = "data_rows matrix h"
  from assms obtain r rs where d: "?d = r # rs"
    by (cases ?d) auto
  have "?d ! i \<in> set ?d"
    using assms by (rule nth_mem)
  moreover have "r \<in> set ?d"
    unfolding d by simp
  ultimately have "?d ! i \<in> set ?d" "r \<in> set ?d" .
  with data_rows_subset [of matrix h]
  have "?d ! i \<in> set (normalize_columns matrix)" "r \<in> set (normalize_columns matrix)"
    by blast+
  then have "length (?d ! i) = length r"
    by (simp add: normalize_columns_width)
  then show ?thesis
    by (simp add: d detect_column_types_def)
qed

text \<open>
  Claim C3, as amended. \<open>align\<close> is a total function of the matrix: each operation of the
  source that can raise is guarded (\<open>matrix[0]\<close>, \<open>row[col_idx]\<close>, \<open>column_types[col_idx]\<close>)
  or caught (the \<open>ValueError\<close> of \<open>float\<close> and \<open>int\<close>). The parsed rows have the shape of the
  data rows. A cell whose parse succeeds holds the parsed value and has no validation
  error. A cell whose parse fails holds its string, stripped of the whitespace at both
  ends, and has exactly one validation error, which carries the row index among the data
  rows, the column index, that stripped string, the expected type and the error. Every
  validation error belongs to a cell.
\<close>

theorem align_validation_advisory:
  "length (rows (align matrix h)) = length (data_rows matrix h)
   \<and> (\<forall>i < length (data_rows matrix h).
         length (rows (align matrix h) ! i) = length (data_rows matrix h ! i))
   \<and> (\<forall>i j. i < length (data_rows matrix h) \<and> j < length (data_rows matrix h ! i) \<longrightarrow>
         (\<forall>v. parse_value (strip (data_rows matrix h ! i ! j)) (column_types (align matrix h) ! j) = Inr v
            \<longrightarrow> rows (align matrix h) ! i ! j = v
              \<and> filter (at_cell i j) (validation_errors (align matrix h)) = [])
       \<and> (\<forall>e. parse_value (strip (data_rows matrix h ! i ! j)) (column_types (align matrix h) ! j) = Inl e
            \<longrightarrow> rows (align matrix h) ! i ! j = PStr (strip (data_rows matrix h ! i ! j))
              \<and> filter (at_cell i j) (validation_errors (align matrix h))
                  = [\<lparr>err_row = i, err_col = j, err_value = strip (data_rows matrix h ! i ! j),
                       expected_type = column_types (align matrix h) ! j, err_error = e\<rparr>]))
   \<and> (\<forall>e \<in> set (validation_errors (align matrix h)).
         err_row e < length (data_rows matrix h)
         \<and> err_col e < length (data_rows matrix h ! err_row e))"
proof -
  let ?d = "data_rows matrix h"
  let ?cts = "detect_column_types ?d"
  note f = align_fields_all [of matrix h]
  have 1: "length (rows (align matrix h)) = length ?d"
    by (simp only: f parsed_rows_length)
  have 2: "\<forall>i < length ?d. length (rows (align matrix h) ! i) = length (?d ! i)"
    by (simp add: f parsed_rows_nth)
  have cell: "parse_cell ?cts i j (?d ! i ! j) =
      (case parse_value (strip (?d ! i ! j)) (?cts ! j) of
         Inr v \<Rightarrow> (v, [])
       | Inl e \<Rightarrow> (PStr (strip (?d ! i ! j)),
           [\<lparr>err_row = i, err_col = j, err_value = strip (?d ! i ! j),
              expected_type = ?cts ! j, err_error = e\<rparr>]))"
    if "i < length ?d" "j < length (?d ! i)" for i j
  proof -
    from that have "j < length ?cts"
      by (simp add: data_rows_width)
    then show ?thesis
      by (simp add: parse_cell_def Let_def)
  qed
  have 3: "(\<forall>v. parse_value (strip (?d ! i ! j)) (column_types (align matrix h) ! j) = Inr v
            \<longrightarrow> rows (align matrix h) ! i ! j = v
              \<and> filter (at_cell i j) (validation_errors (align matrix h)) = [])
       \<and> (\<forall>e. parse_value (strip (?d ! i ! j)) (column_types (align matrix h) ! j) = Inl e
            \<longrightarrow> rows (align matrix h) ! i ! j = PStr (strip (?d ! i ! j))
              \<and> filter (at_cell i j) (validation_errors (align matrix h))
                  = [\<lparr>err_row = i, err_col = j, err_value = strip (?d ! i ! j),
                       expected_type = column_types (align matrix h) ! j, err_error = e\<rparr>])"
    if "i < length ?d \<and> j < length (?d ! i)" for i j
    using that by (simp add: f parsed_at_cell errors_at_cell cell)
  have 4: "\<forall>e \<in> set (validation_errors (align matrix h)).
         err_row e < length ?d \<and> err_col e < length (?d ! err_row e)"
    by (simp only: f) (blast dest: errors_in_range)
  from 1 2 3 4 show ?thesis
    by (intro conjI allI impI) blast+
qed


text \<open>The theorem at a column of numbers with one cell that is not a number.\<close>

theorem align_validation_advisory_witness:
  "rows (align [[''qty''], ['' abc ''], [''+7''], [''+8'']] True) ! 0 ! 0 = PStr ''abc''
   \<and> filter (at_cell 0 0) (validation_errors (align [[''qty''], ['' abc ''], [''+7''], [''+8'']] True))
       = [\<lparr>err_row = 0, err_col = 0, err_value = ''abc'', expected_type = Number,
            err_error = IntError ''abc''\<rparr>]
   \<and> rows (align [[''qty''], ['' abc ''], [''+7''], [''+8'']] True) ! 1 ! 0 = PInt 7
   \<and> filter (at_cell 1 0) (validation_errors (align [[''qty''], ['' abc ''], [''+7''], [''+8'']] True)) = []"
proof -
  let ?m = "[[''qty''], ['' abc ''], [''+7''], [''+8'']]"
  have d: "data_rows ?m True = [['' abc ''], [''+7''], [''+8'']]"
    by code_simp
  have cts: "column_types (align ?m True) = [Number]"
    by code_simp
  have bad: "parse_value (strip '' abc '') Number = Inl (IntError ''abc'')"
    by code_simp
  have good: "parse_value (strip ''+7'') Number = Inr (PInt 7)"
    by code_simp
  have abc: "strip '' abc '' = ''abc''"
    by code_simp
  from align_validation_advisory [of ?m True]
  have cells: "\<forall>i j. i < length (data_rows ?m True) \<and> j < length (data_rows ?m True ! i) \<longrightarrow>
         (\<forall>v. parse_value (strip (data_rows ?m True ! i ! j)) (column_types (align ?m True) ! j) = Inr v
            \<longrightarrow> rows (align ?m True) ! i ! j = v
              \<and> filter (at_cell i j) (validation_errors (align ?m True)) = [])
       \<and> (\<forall>e. parse_value (strip (data_rows ?m True ! i ! j)) (column_types (align ?m True) ! j) = Inl e
            \<longrightarrow> rows (align ?m True) ! i ! j = PStr (strip (data_rows ?m True ! i ! j))
              \<and> filter (at_cell i j) (validation_errors (align ?m True))
                  = [\<lparr>err_row = i, err_col = j, err_value = strip (data_rows ?m True ! i ! j),
                       expected_type = column_types (align ?m True) ! j, err_error = e\<rparr>])"
    by (elim conjE)
  from cells [rule_format, of 0 0] bad
  have "rows (align ?m True) ! 0 ! 0 = PStr ''abc''
     \<and> filter (at_cell 0 0) (validation_errors (align ?m True))
       = [\<lparr>err_row = 0, err_col = 0, err_value = ''abc'', expected_type = Number,
            err_error = IntError ''abc''\<rparr>]"
    by (simp add: d cts abc)
  moreover from cells [rule_format, of 1 0] good
  have "rows (align ?m True) ! 1 ! 0 = PInt 7
     \<and> filter (at_cell 1 0) (validation_errors (align ?m True)) = []"
    by (simp add: d cts)
  ultimately show ?thesis
    by blast
qed

text \<open>
  Claim C3 as stated fails where it says that the original string is retained: the cell
  \<open>" abc "\<close> of a number column fails to parse, and both the output row and the
  validation error hold \<open>"abc"\<close>. Every cell is stripped before it is classified or
  parsed, and the cells of text and date columns are returned stripped as well.
\<close>

theorem align_keeps_stripped_counterexample:
  "data_rows [[''qty''], ['' abc ''], [''+7''], [''+8'']] True ! 0 ! 0 = '' abc ''
   \<and> column_types (align [[''qty''], ['' abc ''], [''+7''], [''+8'']] True) = [Number]
   \<and> rows (align [[''qty''], ['' abc ''], [''+7''], [''+8'']] True)
       = [[PStr ''abc''], [PInt 7], [PInt 8]]
   \<and> validation_errors (align [[''qty''], ['' abc ''], [''+7''], [''+8'']] True)
       = [\<lparr>err_row = 0, err_col = 0, err_value = ''abc'', expected_type = Number,
            err_error = IntError ''abc''\<rparr>]
   \<and> PStr ''abc'' \<noteq> PStr '' abc ''"
  by code_simp

section \<open>Theorems about key-value extraction and metadata\<close>















lemma map_of_dict_set: "map_of (dict_set k v d) = (map_of d)(k \<mapsto> v)"
  by (induction d) (auto simp: fun_eq_iff)

lemma keys_dict_set: "set (map fst (dict_set k v d)) = insert k (set (map fst d))"
proof (induction d)
  case Nil
  show ?case by simp
next
  case (Cons a d)
  obtain k' v' where a: "a = (k', v')" by (cases a)
  show ?case
  proof (cases "k' = k")
    case True
    then show ?thesis by (simp add: a)
  next
    case False
    have "set (map fst (dict_set k v (a # d))) = insert k' (set (map fst (dict_set k v d)))"
      using False by (simp add: a)
    also have "\<dots> = insert k (set (map fst (a # d)))"
      unfolding Cons.IH by (simp add: a insert_commute)
    finally show ?thesis .
  qed
qed

lemma distinct_dict_set: "distinct (map fst d) \<Longrightarrow> distinct (map fst (dict_set k v d))"
proof (induction d)
  case Nil
  show ?case by simp
next
  case (Cons a d)
  obtain k' v' where a: "a = (k', v')" by (cases a)
  from Cons have "distinct (map fst (dict_set k v d))" by simp
  moreover from Cons.prems a have "k' \<notin> set (map fst d)" by simp
  ultimately show ?case
    using Cons.prems a by (auto simp add: keys_dict_set simp del: set_map)
qed

lemma extract_key_values_fold: "extract_key_values txt = fold kv_step (split (CHR 0x0A) txt) []"
  by (simp add: extract_key_values_def kv_step_def [abs_def])

lemma map_of_fold_kv:
  "map_of (fold kv_step ls d) = map_of d ++ map_of (rev (List.map_filter line_entry ls))"
proof (induction ls arbitrary: d)
  case Nil
  show ?case by (simp add: List.map_filter_simps)
next
  case (Cons l ls)
  show ?case
  proof (cases "line_entry l")
    case None
    then have "kv_step l d = d" by (simp add: kv_step_def)
    with None show ?thesis by (simp add: Cons List.map_filter_simps)
  next
    case (Some e)
    obtain k v where e: "e = (k, v)" by (cases e)
    have s: "kv_step l d = dict_set k v d" by (simp add: kv_step_def Some e)
    have "map_of (fold kv_step (l # ls) d) = map_of (dict_set k v d) ++ map_of (rev (List.map_filter line_entry ls))"
      by (simp add: Cons s)
    also have "\<dots> = (map_of d)(k \<mapsto> v) ++ map_of (rev (List.map_filter line_entry ls))"
      by (simp only: map_of_dict_set)
    also have "\<dots> = map_of d ++ map_of (rev (List.map_filter line_entry (l # ls)))"
      by (simp add: List.map_filter_simps Some e fun_eq_iff map_add_def split: option.splits)
    finally show ?thesis .
  qed
qed

lemma distinct_fold_kv:
  "distinct (map fst d) \<Longrightarrow> distinct (map fst (fold kv_step ls d))"
proof (induction ls arbitrary: d)
  case Nil
  then show ?case by simp
next
  case (Cons l ls)
  have "distinct (map fst (kv_step l d))"
    using Cons.prems by (auto simp: kv_step_def distinct_dict_set split: option.splits)
  then show ?case by (simp add: Cons.IH)
qed

lemma keys_fold_kv:
  "set (map fst (fold kv_step ls d)) = set (map fst d) \<union> set (map fst (List.map_filter line_entry ls))"
proof (induction ls arbitrary: d)
  case Nil
  show ?case by (simp add: List.map_filter_simps)
next
  case (Cons l ls)
  show ?case
  proof (cases "line_entry l")
    case None
    then have "kv_step l d = d" by (simp add: kv_step_def)
    with None show ?thesis by (simp add: Cons List.map_filter_simps del: set_map)
  next
    case (Some e)
    obtain k v where e: "e = (k, v)" by (cases e)
    have s: "kv_step l d = dict_set k v d" by (simp add: kv_step_def Some e)
    show ?thesis
      by (simp add: Cons s Some e keys_dict_set List.map_filter_simps del: set_map)
  qed
qed

lemma map_of_extract: "map_of (extract_key_values txt) = map_of (rev (kv_lines txt))"
  by (simp add: extract_key_values_fold map_of_fold_kv kv_lines_def)

lemma distinct_extract: "distinct (map fst (extract_key_values txt))"
  by (simp add: extract_key_values_fold distinct_fold_kv)

lemma keys_extract: "set (map fst (extract_key_values txt)) = set (map fst (kv_lines txt))"
  by (simp add: extract_key_values_fold keys_fold_kv kv_lines_def del: set_map)

lemma length_extract: "length (extract_key_values txt) = card (fst ` set (kv_lines txt))"
proof -
  have "length (extract_key_values txt) = length (map fst (extract_key_values txt))"
    by simp
  also have "\<dots> = card (set (map fst (extract_key_values txt)))"
    by (rule distinct_card [symmetric]) (rule distinct_extract)
  also have "\<dots> = card (fst ` set (kv_lines txt))"
    by (simp only: keys_extract) simp
  finally show ?thesis .
qed

lemma map_of_rev_last:
  "i < length xs \<Longrightarrow> \<forall>j. i < j \<and> j < length xs \<longrightarrow> fst (xs ! j) \<noteq> fst (xs ! i)
     \<Longrightarrow> map_of (rev xs) (fst (xs ! i)) = Some (snd (xs ! i))"
proof (induction xs rule: rev_induct)
  case Nil
  then show ?case by simp
next
  case (snoc x xs)
  show ?case
  proof (cases "i = length xs")
    case True
    then show ?thesis by simp
  next
    case False
    with snoc.prems have i: "i < length xs" by simp
    from snoc.prems(2) [rule_format, of "length xs"] i
    have "fst ((xs @ [x]) ! length xs) \<noteq> fst ((xs @ [x]) ! i)"
      by simp
    with i have ne: "fst x \<noteq> fst (xs ! i)" by (simp add: nth_append)
    have "\<forall>j. i < j \<and> j < length xs \<longrightarrow> fst (xs ! j) \<noteq> fst (xs ! i)"
    proof (intro allI impI)
      fix j assume j: "i < j \<and> j < length xs"
      with snoc.prems(2) [rule_format, of j] have "fst ((xs @ [x]) ! j) \<noteq> fst ((xs @ [x]) ! i)" by simp
      with j i show "fst (xs ! j) \<noteq> fst (xs ! i)" by (simp add: nth_append)
    qed
    with snoc.IH i have "map_of (rev xs) (fst (xs ! i)) = Some (snd (xs ! i))" by simp
    with ne i show ?thesis by (simp add: nth_append)
  qed
qed

lemma map_of_rev_mem: "map_of (rev xs) k = Some v \<Longrightarrow> \<exists>i < length xs. xs ! i = (k, v) \<and> (\<forall>j. i < j \<and> j < length xs \<longrightarrow> fst (xs ! j) \<noteq> k)"
proof (induction xs rule: rev_induct)
  case Nil
  then show ?case by simp
next
  case (snoc x xs)
  show ?case
  proof (cases "fst x = k")
    case True
    with snoc.prems have "x = (k, v)" by (cases x) simp
    then have a: "(xs @ [x]) ! length xs = (k, v)"
      by simp
    have b: "\<forall>j. length xs < j \<and> j < length (xs @ [x]) \<longrightarrow> fst ((xs @ [x]) ! j) \<noteq> k"
    proof (intro allI impI)
      fix j assume "length xs < j \<and> j < length (xs @ [x])"
      then have False by auto
      then show "fst ((xs @ [x]) ! j) \<noteq> k" ..
    qed
    have c: "length xs < length (xs @ [x])" by simp
    from a b c show ?thesis
      by (intro exI [of _ "length xs"] conjI)
  next
    case False
    with snoc.prems have "map_of (rev xs) k = Some v" by (cases x) simp
    from snoc.IH [OF this] obtain i where i: "i < length xs" "xs ! i = (k, v)"
      "\<forall>j. i < j \<and> j < length xs \<longrightarrow> fst (xs ! j) \<noteq> k" by blast
    have "\<forall>j. i < j \<and> j < length (xs @ [x]) \<longrightarrow> fst ((xs @ [x]) ! j) \<noteq> k"
    proof (intro allI impI)
      fix j assume j: "i < j \<and> j < length (xs @ [x])"
      show "fst ((xs @ [x]) ! j) \<noteq> k"
      proof (cases "j = length xs")
        case True
        with False show ?thesis by simp
      next
        case False
        with j have "j < length xs" by simp
        with i(3) j show ?thesis by (simp add: nth_append)
      qed
    qed
    with i show ?thesis
      by (intro exI [of _ i]) (simp add: nth_append)
  qed
qed

text \<open>
  Claim C10. \<open>kv_lines txt\<close> lists, in the order of the lines, the key and the parsed value
  of each line of the text that matches a pattern. The extracted dictionary has one
  entry for each key; the entry of the last line with a given key is in it, and every
  entry of it is the entry of the last line with its key. So it has as many entries as
  there are distinct keys, at most as many as there are matching lines, and fewer when
  two matching lines give the same key.
\<close>

theorem extract_key_values_last_wins:
  "distinct (map fst (extract_key_values txt))
   \<and> (\<forall>i < length (kv_lines txt).
        (\<forall>j. i < j \<and> j < length (kv_lines txt) \<longrightarrow> fst (kv_lines txt ! j) \<noteq> fst (kv_lines txt ! i))
        \<longrightarrow> kv_lines txt ! i \<in> set (extract_key_values txt))
   \<and> (\<forall>k v. (k, v) \<in> set (extract_key_values txt) \<longrightarrow>
        (\<exists>i < length (kv_lines txt). kv_lines txt ! i = (k, v)
           \<and> (\<forall>j. i < j \<and> j < length (kv_lines txt) \<longrightarrow> fst (kv_lines txt ! j) \<noteq> k)))
   \<and> length (extract_key_values txt) = card (fst ` set (kv_lines txt))
   \<and> length (extract_key_values txt) \<le> length (kv_lines txt)
   \<and> (\<not> distinct (map fst (kv_lines txt)) \<longrightarrow>
        length (extract_key_values txt) < length (kv_lines txt))"
proof -
  let ?kv = "kv_lines txt" and ?d = "extract_key_values txt"
  have 1: "distinct (map fst ?d)" by (rule distinct_extract)
  have 2: "\<forall>i < length ?kv.
        (\<forall>j. i < j \<and> j < length ?kv \<longrightarrow> fst (?kv ! j) \<noteq> fst (?kv ! i))
        \<longrightarrow> ?kv ! i \<in> set ?d"
  proof (intro allI impI)
    fix i assume i: "i < length ?kv"
      and l: "\<forall>j. i < j \<and> j < length ?kv \<longrightarrow> fst (?kv ! j) \<noteq> fst (?kv ! i)"
    from map_of_rev_last [OF i l] have "map_of ?d (fst (?kv ! i)) = Some (snd (?kv ! i))"
      by (simp only: map_of_extract)
    from map_of_SomeD [OF this] show "?kv ! i \<in> set ?d" by simp
  qed
  have 3: "\<forall>k v. (k, v) \<in> set ?d \<longrightarrow>
        (\<exists>i < length ?kv. ?kv ! i = (k, v)
           \<and> (\<forall>j. i < j \<and> j < length ?kv \<longrightarrow> fst (?kv ! j) \<noteq> k))"
  proof (intro allI impI)
    fix k v assume "(k, v) \<in> set ?d"
    with 1 have "map_of ?d k = Some v" by (rule map_of_is_SomeI)
    then have "map_of (rev ?kv) k = Some v" by (simp only: map_of_extract)
    then show "\<exists>i < length ?kv. ?kv ! i = (k, v)
           \<and> (\<forall>j. i < j \<and> j < length ?kv \<longrightarrow> fst (?kv ! j) \<noteq> k)"
      by (rule map_of_rev_mem)
  qed
  have 4: "length ?d = card (fst ` set ?kv)" by (rule length_extract)
  have c: "card (fst ` set ?kv) = card (set (map fst ?kv))" by simp
  have 5: "length ?d \<le> length ?kv"
    unfolding 4 c using card_length [of "map fst ?kv"] by simp
  have 6: "\<not> distinct (map fst ?kv) \<longrightarrow> length ?d < length ?kv"
  proof
    assume "\<not> distinct (map fst ?kv)"
    then have "card (set (map fst ?kv)) \<noteq> length (map fst ?kv)"
      using card_distinct by blast
    with card_length [of "map fst ?kv"] have "card (set (map fst ?kv)) < length ?kv" by simp
    then show "length ?d < length ?kv" unfolding 4 c .
  qed
  from 1 2 3 4 5 6 show ?thesis by (intro conjI)
qed

text \<open>
  The theorem at a text of four lines, of which three match, the first and the third
  with the key \<open>paid\<close>: the dictionary has two entries, and that of \<open>paid\<close> is the value of
  the third line.
\<close>

theorem extract_key_values_last_wins_witness:
  "kv_lines ''Paid: yes\<newline>Total: 5\<newline> paid : no\<newline>junk''
     = [(''paid'', PBool True), (''total'', PInt 5), (''paid'', PBool False)]
   \<and> (''paid'', PBool False) \<in> set (extract_key_values ''Paid: yes\<newline>Total: 5\<newline> paid : no\<newline>junk'')
   \<and> (''paid'', PBool True) \<notin> set (extract_key_values ''Paid: yes\<newline>Total: 5\<newline> paid : no\<newline>junk'')
   \<and> length (extract_key_values ''Paid: yes\<newline>Total: 5\<newline> paid : no\<newline>junk'') = 2"
proof -
  let ?t = "''Paid: yes\<newline>Total: 5\<newline> paid : no\<newline>junk''"
  have kv: "kv_lines ?t = [(''paid'', PBool True), (''total'', PInt 5), (''paid'', PBool False)]"
    by code_simp
  note t = extract_key_values_last_wins [of ?t, unfolded kv]
  have l: "\<forall>j. 2 < j \<and> j < length [(''paid'', PBool True), (''total'', PInt 5), (''paid'', PBool False)] \<longrightarrow>
     fst ([(''paid'', PBool True), (''total'', PInt 5), (''paid'', PBool False)] ! j)
       \<noteq> fst ([(''paid'', PBool True), (''total'', PInt 5), (''paid'', PBool False)] ! 2)"
    by simp
  from t have "\<forall>i < length [(''paid'', PBool True), (''total'', PInt 5), (''paid'', PBool False)].
        (\<forall>j. i < j \<and> j < length [(''paid'', PBool True), (''total'', PInt 5), (''paid'', PBool False)] \<longrightarrow> fst ([(''paid'', PBool True), (''total'', PInt 5), (''paid'', PBool False)] ! j) \<noteq> fst ([(''paid'', PBool True), (''total'', PInt 5), (''paid'', PBool False)] ! i))
        \<longrightarrow> [(''paid'', PBool True), (''total'', PInt 5), (''paid'', PBool False)] ! i \<in> set (extract_key_values ?t)"
    by (elim conjE)
  from this [rule_format, of 2] l have a: "(''paid'', PBool False) \<in> set (extract_key_values ?t)"
    by simp
  from t have d: "distinct (map fst (extract_key_values ?t))" by (elim conjE)
  have b: "(''paid'', PBool True) \<notin> set (extract_key_values ?t)"
  proof
    assume "(''paid'', PBool True) \<in> set (extract_key_values ?t)"
    with d a have "PBool True = PBool False"
      by (metis map_of_is_SomeI option.inject)
    then show False by simp
  qed
  from t have "length (extract_key_values ?t) = card (fst ` set [(''paid'', PBool True), (''total'', PInt 5), (''paid'', PBool False)])"
    by (elim conjE)
  then have c: "length (extract_key_values ?t) = 2" by (simp add: card_insert_if)
  from kv a b c show ?thesis by (intro conjI)
qed



end
